theory Spec2Isabelle
  imports Complex_Main "HOL-Library.Word"
begin

unbundle bit_operations_syntax

section \<open>conn/const.go: the BBR fixed-point constants\<close>

text \<open>
  Go evaluates untyped integer constant expressions exactly, with a division that
  truncates; every operand below is non-negative, where truncation and \<open>div\<close> agree.
\<close>

definition BBR_SCALE :: nat where
  "BBR_SCALE = 8"

definition BBR_UNIT :: int where
  "BBR_UNIT = push_bit BBR_SCALE 1"

definition highGain :: int where
  "highGain = BBR_UNIT * 2885 div 1000 + 1"

definition drainGain :: int where
  "drainGain = BBR_UNIT * 1000 div 2885"

definition cwndGain :: int where
  "cwndGain = BBR_UNIT * 2"

definition fullBwThresh :: int where
  "fullBwThresh = BBR_UNIT * 5 div 4"

definition fullBwCnt :: int where
  "fullBwCnt = 3"

definition pacingGain :: "int list" where
  "pacingGain =
     [BBR_UNIT * 5 div 4,
      BBR_UNIT * 3 div 4,
      BBR_UNIT, BBR_UNIT, BBR_UNIT,
      BBR_UNIT, BBR_UNIT, BBR_UNIT]"

definition gainCycleLength :: int where
  "gainCycleLength = int (length pacingGain)"

definition bandwidthWindowSize :: int where
  "bandwidthWindowSize = gainCycleLength + 2"

section \<open>Go values: panics, byte slices, big-endian words\<close>

type_synonym byte = "8 word"
type_synonym u32 = "32 word"
type_synonym u64 = "64 word"

text \<open>
  A Go call either returns its results or panics. Functions that return an \<open>error\<close>
  return it as an ordinary result (\<open>None\<close> is \<open>nil\<close>); a panic is the other
  constructor.
\<close>

datatype panic_value =
    IndexOutOfRange
  | SliceBoundsOutOfRange
  | MsgLenError u32 u32
  | PanicString string

datatype 'a go = Return 'a | Panic panic_value

definition go_bind :: "'a go \<Rightarrow> ('a \<Rightarrow> 'b go) \<Rightarrow> 'b go" where
  "go_bind r f = (case r of Panic p \<Rightarrow> Panic p | Return x \<Rightarrow> f x)"

text \<open>
  A slice is modelled by its visible elements (capacity equal to length, which is what
  \<open>make\<close> gives). \<open>xs[a:b]\<close> panics unless \<open>a \<le> b \<le> len(xs)\<close>; writes through the
  sub-slice land in \<open>xs\<close>, which \<open>write_back\<close> puts back.
\<close>

definition subslice :: "'a list \<Rightarrow> nat \<Rightarrow> nat \<Rightarrow> 'a list go" where
  "subslice xs a b =
     (if a \<le> b \<and> b \<le> length xs then Return (take (b - a) (drop a xs))
      else Panic SliceBoundsOutOfRange)"

definition write_back :: "'a list \<Rightarrow> nat \<Rightarrow> 'a list \<Rightarrow> 'a list" where
  "write_back xs a ys = take a xs @ ys @ drop (a + length ys) xs"

definition set_index :: "'a list \<Rightarrow> nat \<Rightarrow> 'a \<Rightarrow> 'a list go" where
  "set_index xs i v = (if i < length xs then Return (xs[i := v]) else Panic IndexOutOfRange)"

definition get_index :: "'a list \<Rightarrow> nat \<Rightarrow> 'a go" where
  "get_index xs i = (if i < length xs then Return (xs ! i) else Panic IndexOutOfRange)"

text \<open>The builtin \<open>copy(dst, src)\<close> copies \<open>min(len(dst), len(src))\<close> elements.\<close>

definition go_copy :: "'a list \<Rightarrow> 'a list \<Rightarrow> 'a list" where
  "go_copy dst src = take (length dst) src @ drop (length src) dst"

text \<open>encoding/binary, \<open>BigEndian.Uint32\<close> and \<open>BigEndian.PutUint32\<close>.\<close>

definition be_bytes :: "u32 \<Rightarrow> byte list" where
  "be_bytes v = [ucast (drop_bit 24 v), ucast (drop_bit 16 v), ucast (drop_bit 8 v), ucast v]"

definition Uint32 :: "byte list \<Rightarrow> u32 go" where
  "Uint32 b =
     (if length b < 4 then Panic IndexOutOfRange
      else Return (ucast (b ! 3) OR push_bit 8 (ucast (b ! 2)) OR push_bit 16 (ucast (b ! 1))
                   OR push_bit 24 (ucast (b ! 0))))"

definition PutUint32 :: "byte list \<Rightarrow> u32 \<Rightarrow> byte list go" where
  "PutUint32 b v =
     (if length b < 4 then Panic IndexOutOfRange else Return (be_bytes v @ drop 4 b))"

text \<open>\<open>binary.BigEndian.PutUint32(xs[a:b], v)\<close>, and \<open>copy(xs[a:], src)\<close>.\<close>

definition put_u32_at :: "byte list \<Rightarrow> nat \<Rightarrow> nat \<Rightarrow> u32 \<Rightarrow> byte list go" where
  "put_u32_at xs a b v =
     go_bind (subslice xs a b) (\<lambda>sub.
     go_bind (PutUint32 sub v) (\<lambda>sub'.
     Return (write_back xs a sub')))"

definition copy_at :: "'a list \<Rightarrow> nat \<Rightarrow> 'a list \<Rightarrow> 'a list go" where
  "copy_at xs a src =
     go_bind (subslice xs a (length xs)) (\<lambda>sub.
     Return (write_back xs a (go_copy sub src)))"

text \<open>
  hash/crc32, \<open>ChecksumIEEE\<close>: the reflected CRC-32 with polynomial \<open>0xEDB88320\<close>,
  initial value and final complement \<open>0xFFFFFFFF\<close>, computed bit by bit.
\<close>

definition crc_shift :: "u32 \<Rightarrow> u32" where
  "crc_shift c = (if bit c 0 then drop_bit 1 c XOR 0xEDB88320 else drop_bit 1 c)"

definition crc_update :: "byte \<Rightarrow> u32 \<Rightarrow> u32" where
  "crc_update b c = (crc_shift ^^ 8) (c XOR ucast b)"

definition ChecksumIEEE :: "byte list \<Rightarrow> u32" where
  "ChecksumIEEE bs = NOT (fold crc_update bs (NOT 0))"

section \<open>msg/msg.go: messages and their encodings\<close>

text \<open>
  Modelled from the spec: the offsets of msg/const.go, which is not among the sources.
  The wire format \<open>| crc32 (4) | type (1) | seq (4) | len (4) | body (len) |\<close> with
  \<open>MSG_HEADER_SIZE = 9\<close> and \<open>PKG_HEADER_SIZE = 4\<close> fixes them.
\<close>

definition MSG_TYPE_BEGIN :: nat where "MSG_TYPE_BEGIN = 0"
definition MSG_SEQ_BEGIN :: nat where "MSG_SEQ_BEGIN = 1"
definition MSG_SEQ_END :: nat where "MSG_SEQ_END = 5"
definition MSG_LEN_BEGIN :: nat where "MSG_LEN_BEGIN = 5"
definition MSG_LEN_END :: nat where "MSG_LEN_END = 9"
definition MSG_HEADER_END :: nat where "MSG_HEADER_END = 9"
definition MSG_HEADER_SIZE :: nat where "MSG_HEADER_SIZE = 9"
definition PKG_CRC32_BEGIN :: nat where "PKG_CRC32_BEGIN = 0"
definition PKG_HEADER_SIZE :: nat where "PKG_HEADER_SIZE = 4"

text \<open>
  The remaining constants of msg/const.go (message types, status bits, the size limit)
  have no value in the sources or the spec; every function that reads one takes this
  record as its first argument.
\<close>

record msg_const =
  TYPE_NORMAL :: byte
  TYPE_ACK :: byte
  MSG_STATUS_TRANSMITTED :: int
  MSG_STATUS_ACKED :: int
  MAX_MESSAGE_SIZE :: u32

text \<open>
  \<open>time.Time\<close> and \<open>time.Duration\<close> are integers (nanoseconds); the zero time is 0 and
  \<open>time.Now()\<close> is an argument \<open>now\<close> of the function that reads the clock. \<open>status\<close> is
  Go's \<open>int\<close>, on which \<open>|\<close> and \<open>&\<close> are the two's complement operations that
  \<open>OR\<close> and \<open>AND\<close> are on HOL's integers. The mutex of a message serialises its methods
  and is not modelled.
\<close>

record Message =
  Type :: byte
  Seq :: u32
  Len :: u32
  Body :: "byte list"
  status :: int
  transmittedAt :: int
  ackedAt :: int
  rtt :: int
  cache :: "byte list"

definition NewByHeader :: "msg_const \<Rightarrow> byte list \<Rightarrow> Message go" where
  "NewByHeader K header =
     go_bind (get_index header 0) (\<lambda>t.
     go_bind (go_bind (subslice header MSG_SEQ_BEGIN MSG_SEQ_END) Uint32) (\<lambda>s.
     go_bind (go_bind (subslice header MSG_LEN_BEGIN MSG_LEN_END) Uint32) (\<lambda>l.
     if l > MAX_MESSAGE_SIZE K then Panic (MsgLenError l (MAX_MESSAGE_SIZE K))
     else Return \<lparr>Type = t, Seq = s, Len = l, Body = replicate (unat l) 0, status = 0,
                  transmittedAt = 0, ackedAt = 0, rtt = 0, cache = []\<rparr>)))"

definition New :: "byte \<Rightarrow> u32 \<Rightarrow> byte list \<Rightarrow> Message" where
  "New t seq bytes =
     \<lparr>Type = t, Seq = seq, Len = of_nat (length bytes), Body = bytes, status = 0,
      transmittedAt = 0, ackedAt = 0, rtt = 0, cache = []\<rparr>"

text \<open>
  The body shared by \<open>Bytes\<close>, \<open>PkgBytes\<close> and \<open>HeaderBytes\<close>: type, seq and len written
  into a buffer \<open>m\<close> at the message offsets.
\<close>

definition put_header :: "'a Message_scheme \<Rightarrow> byte list \<Rightarrow> byte list go" where
  "put_header msg m =
     go_bind (set_index m 0 (Type msg)) (\<lambda>m.
     go_bind (put_u32_at m MSG_SEQ_BEGIN MSG_SEQ_END (Seq msg)) (\<lambda>m.
     put_u32_at m MSG_LEN_BEGIN MSG_LEN_END (Len msg)))"

text \<open>
  \<open>MSG_HEADER_SIZE+msg.Len\<close> is a \<open>uint32\<close> sum and wraps. Each encoder returns its
  result together with the message, whose cache it may have filled.
\<close>

definition Bytes :: "'a Message_scheme \<Rightarrow> (byte list \<times> 'a Message_scheme) go" where
  "Bytes msg =
     (if length (cache msg) > 0 then Return (cache msg, msg)
      else
        go_bind (put_header msg (replicate (unat (of_nat MSG_HEADER_SIZE + Len msg)) 0)) (\<lambda>result.
        go_bind (copy_at result MSG_HEADER_END (Body msg)) (\<lambda>result.
        Return (result, msg\<lparr>cache := result\<rparr>))))"

definition PkgBytes :: "'a Message_scheme \<Rightarrow> (byte list \<times> 'a Message_scheme) go" where
  "PkgBytes msg =
     (if length (cache msg) > 0 then Return (cache msg, msg)
      else
        let result = replicate (unat (of_nat PKG_HEADER_SIZE + of_nat MSG_HEADER_SIZE + Len msg)) 0
        in
        go_bind (subslice result PKG_HEADER_SIZE (length result)) (\<lambda>m.
        go_bind (put_header msg m) (\<lambda>m.
        go_bind (copy_at m MSG_HEADER_END (Body msg)) (\<lambda>m.
        let checksum = ChecksumIEEE m;
            result = write_back result PKG_HEADER_SIZE m
        in
        go_bind (put_u32_at result PKG_CRC32_BEGIN (length result) checksum) (\<lambda>result.
        Return (result, msg\<lparr>cache := result\<rparr>))))))"

definition HeaderBytes :: "'a Message_scheme \<Rightarrow> byte list go" where
  "HeaderBytes msg = put_header msg (replicate MSG_HEADER_SIZE 0)"

definition TotalSize :: "'a Message_scheme \<Rightarrow> int" where
  "TotalSize msg =
     (if length (cache msg) > 0 then int (length (cache msg))
      else int MSG_HEADER_SIZE + int (length (Body msg)))"

definition Transmitted :: "msg_const \<Rightarrow> int \<Rightarrow> 'a Message_scheme \<Rightarrow> 'a Message_scheme" where
  "Transmitted K now msg =
     msg\<lparr>status := status msg OR MSG_STATUS_TRANSMITTED K, transmittedAt := now\<rparr>"

definition Acked :: "msg_const \<Rightarrow> int \<Rightarrow> 'a Message_scheme \<Rightarrow> 'a Message_scheme" where
  "Acked K now msg =
     msg\<lparr>status := status msg OR MSG_STATUS_ACKED K, ackedAt := now,
         rtt := now - transmittedAt msg\<rparr>"

definition GetRTT :: "'a Message_scheme \<Rightarrow> int" where
  "GetRTT msg = rtt msg"

text \<open>
  \<open>UDPMessage\<close> embeds \<open>*Message\<close>. Its resend timer is the value \<open>time.AfterFunc\<close>
  returns: the period, the resend function that the callback closes over, and whether
  the timer is still due to fire. The resend function \<open>fn func() error\<close> acts on the
  caller's side of the world \<open>'w\<close> (the connection and its socket).
\<close>

datatype ('w, 'e) timer = Timer (period: int) (resend: "'w \<Rightarrow> 'e option \<times> 'w") (armed: bool)

record ('w, 'e) UDPMessage = Message +
  miss :: u32
  resendTimer :: "('w, 'e) timer option"
  delivered :: u64
  deliveryTime :: int

definition NewUDP :: "byte \<Rightarrow> u32 \<Rightarrow> byte list \<Rightarrow> u64 \<Rightarrow> int \<Rightarrow> ('w, 'e) UDPMessage" where
  "NewUDP t seq bytes dlv deliveredTime =
     \<lparr>Type = t, Seq = seq, Len = of_nat (length bytes), Body = bytes, status = 0,
      transmittedAt = 0, ackedAt = 0, rtt = 0, cache = [],
      miss = 0, resendTimer = None, delivered = dlv, deliveryTime = deliveredTime\<rparr>"

definition UDPMessage_Transmitted ::
  "msg_const \<Rightarrow> int \<Rightarrow> ('w, 'e, 'a) UDPMessage_scheme \<Rightarrow> ('w, 'e, 'a) UDPMessage_scheme" where
  "UDPMessage_Transmitted K now msg =
     msg\<lparr>status := status msg OR MSG_STATUS_TRANSMITTED K, transmittedAt := now\<rparr>"

definition Miss :: "('w, 'e, 'a) UDPMessage_scheme \<Rightarrow> u32 \<times> ('w, 'e, 'a) UDPMessage_scheme" where
  "Miss msg = (miss msg + 1, msg\<lparr>miss := miss msg + 1\<rparr>)"

definition ResetMiss :: "('w, 'e, 'a) UDPMessage_scheme \<Rightarrow> ('w, 'e, 'a) UDPMessage_scheme" where
  "ResetMiss msg = msg\<lparr>miss := 0\<rparr>"

definition SetRTO ::
  "int \<Rightarrow> ('w \<Rightarrow> 'e option \<times> 'w) \<Rightarrow> ('w, 'e, 'a) UDPMessage_scheme
   \<Rightarrow> ('w, 'e, 'a) UDPMessage_scheme" where
  "SetRTO rto fn msg = msg\<lparr>resendTimer := Some (Timer rto fn True)\<rparr>"

text \<open>The function that \<open>SetRTO\<close> hands to \<open>time.AfterFunc\<close>, run on the message and the world.\<close>

definition rto_callback ::
  "msg_const \<Rightarrow> int \<Rightarrow> ('w \<Rightarrow> 'e option \<times> 'w) \<Rightarrow> ('w, 'e, 'a) UDPMessage_scheme \<times> 'w
   \<Rightarrow> ('w, 'e, 'a) UDPMessage_scheme \<times> 'w" where
  "rto_callback K rto fn mw =
     (let msg = fst mw; w = snd mw in
      if status msg AND MSG_STATUS_ACKED K > 0 then (msg, w)
      else
        let msg = ResetMiss msg;
            r = fn w;
            err = fst r
        in if err = None then (SetRTO rto fn msg, snd r) else (msg, snd r))"

text \<open>
  The event "the resend timer fires": possible only while the timer is armed; the timer
  that fired is spent, and its callback runs.
\<close>

definition timer_fires ::
  "msg_const \<Rightarrow> ('w, 'e, 'a) UDPMessage_scheme \<times> 'w
   \<Rightarrow> (('w, 'e, 'a) UDPMessage_scheme \<times> 'w) option" where
  "timer_fires K mw =
     (case resendTimer (fst mw) of
        None \<Rightarrow> None
      | Some t \<Rightarrow>
          if armed t
          then Some (rto_callback K (period t) (resend t)
                 ((fst mw)\<lparr>resendTimer := Some (Timer (period t) (resend t) False)\<rparr>, snd mw))
          else None)"

text \<open>\<open>resendTimer.Stop()\<close>: the timer will not fire any more.\<close>

definition Stop :: "('w, 'e) timer \<Rightarrow> ('w, 'e) timer" where
  "Stop t = Timer (period t) (resend t) False"

definition UDPMessage_Acked ::
  "msg_const \<Rightarrow> int \<Rightarrow> ('w, 'e, 'a) UDPMessage_scheme \<Rightarrow> ('w, 'e, 'a) UDPMessage_scheme" where
  "UDPMessage_Acked K now msg =
     msg\<lparr>status := status msg OR MSG_STATUS_ACKED K, ackedAt := now,
         rtt := now - transmittedAt msg,
         resendTimer := (case resendTimer msg of None \<Rightarrow> None | Some t \<Rightarrow> Some (Stop t))\<rparr>"

section \<open>conn/pending_map.go: the pending maps\<close>

text \<open>
  The maps hold \<open>*msg.Message\<close>; an entry is modelled by the value the pointer refers to,
  so a method call on a stored message updates the entry. Every operation runs its
  critical section under the map's lock and is one atomic step here; what it does after
  releasing the lock (\<open>Transmitted\<close>, \<open>Acked\<close>, the entry in \<open>ackedMessages\<close>) is part of
  the same step. The background
  task \<open>analyse\<close> only moves \<open>ackedMessages\<close> to \<open>lastMinuteAcked\<close> and formats
  \<open>statistics\<close>; it is not modelled.
\<close>

record PendingMap =
  Pending :: "u32 \<rightharpoonup> Message"
  ackedMessages :: "u32 \<rightharpoonup> Message"
  lastMinuteAcked :: "u32 \<rightharpoonup> Message"
  statistics :: string

definition NewPendingMap :: PendingMap where
  "NewPendingMap =
     \<lparr>Pending = Map.empty, ackedMessages = Map.empty, lastMinuteAcked = Map.empty,
      statistics = []\<rparr>"

definition AddMsg ::
  "msg_const \<Rightarrow> int \<Rightarrow> u32 \<Rightarrow> Message \<Rightarrow> 'a PendingMap_scheme \<Rightarrow> 'a PendingMap_scheme" where
  "AddMsg K now k v m = m\<lparr>Pending := (Pending m)(k \<mapsto> Transmitted K now v)\<rparr>"

definition DelMsg ::
  "msg_const \<Rightarrow> int \<Rightarrow> u32 \<Rightarrow> 'a PendingMap_scheme \<Rightarrow> bool \<times> 'a PendingMap_scheme" where
  "DelMsg K now k m =
     (case Pending m k of
        None \<Rightarrow> (False, m)
      | Some v \<Rightarrow>
          (True, m\<lparr>ackedMessages := (ackedMessages m)(k \<mapsto> Acked K now v),
                   Pending := (Pending m)(k := None)\<rparr>))"

record UDPPendingMap = PendingMap +
  waitBits :: byte

definition NewUDPPendingMap :: UDPPendingMap where
  "NewUDPPendingMap =
     \<lparr>Pending = Map.empty, ackedMessages = Map.empty, lastMinuteAcked = Map.empty,
      statistics = [], waitBits = 0\<rparr>"

text \<open>
  \<open>1 << i\<close> at type \<open>byte\<close>, for the \<open>uint32\<close> shift count \<open>i = k % 8\<close>.
\<close>

definition slot_bit :: "u32 \<Rightarrow> byte" where
  "slot_bit k = push_bit (unat (k mod 8)) 1"

text \<open>
  \<open>UDPPendingMap.AddMsg\<close> waits on \<open>waitCond\<close> while the bit of its slot is set. The
  result \<open>None\<close> is the caller blocked in \<open>Wait\<close> (the map unchanged); \<open>Some\<close> is the map
  after the call went through.
\<close>

definition UDPPendingMap_AddMsg ::
  "msg_const \<Rightarrow> int \<Rightarrow> u32 \<Rightarrow> Message \<Rightarrow> UDPPendingMap \<Rightarrow> UDPPendingMap option" where
  "UDPPendingMap_AddMsg K now k v m =
     (if waitBits m AND slot_bit k > 0 then None
      else Some (m\<lparr>Pending := (Pending m)(k \<mapsto> Transmitted K now v),
                   waitBits := waitBits m OR slot_bit k\<rparr>))"

text \<open>The loop \<open>for n := 7; n > 1; n--\<close> of \<open>DelMsgAndGetLossMsgs\<close>.\<close>

fun loss_scan ::
  "(u32 \<rightharpoonup> Message) \<Rightarrow> byte \<Rightarrow> u32 \<Rightarrow> nat \<Rightarrow> Message list \<Rightarrow> Message list go" where
  "loss_scan P wb k n loss =
     (if n > 1 then
        let pk = k - of_nat n in
        if wb AND slot_bit pk > 0 then
          (case P pk of
             None \<Rightarrow> Panic (PanicString ''udp pending map !ok'')
           | Some l \<Rightarrow> loss_scan P wb k (n - 1) (loss @ [l]))
        else loss_scan P wb k (n - 1) loss
      else Return loss)"

definition DelMsgAndGetLossMsgs ::
  "msg_const \<Rightarrow> int \<Rightarrow> u32 \<Rightarrow> UDPPendingMap \<Rightarrow> (bool \<times> Message list \<times> UDPPendingMap) go" where
  "DelMsgAndGetLossMsgs K now k m =
     (case Pending m k of
        None \<Rightarrow> Return (False, [], m)
      | Some v \<Rightarrow>
          let P = (Pending m)(k := None);
              wb = waitBits m AND NOT (slot_bit k);
              prev = NOT (slot_bit k) AND NOT (slot_bit (k - 1))
          in
          go_bind (if wb AND prev > 0 then loss_scan P wb k 7 [] else Return []) (\<lambda>loss.
          Return (True, loss,
                  m\<lparr>Pending := P, waitBits := wb,
                    ackedMessages := (ackedMessages m)(k \<mapsto> Acked K now v)\<rparr>)))"

text \<open>
  A schedule of calls on one map, each taking effect atomically in the order given: a
  blocked \<open>AddMsg\<close> leaves the map as it is (its caller keeps waiting), and a panic ends
  the run.
\<close>

datatype pm_call = CallAddMsg int u32 Message | CallDelMsgAndGetLossMsgs int u32

fun pm_step :: "msg_const \<Rightarrow> pm_call \<Rightarrow> UDPPendingMap \<Rightarrow> UDPPendingMap option" where
  "pm_step K (CallAddMsg now k v) m =
     (case UDPPendingMap_AddMsg K now k v m of None \<Rightarrow> Some m | Some m' \<Rightarrow> Some m')"
| "pm_step K (CallDelMsgAndGetLossMsgs now k) m =
     (case DelMsgAndGetLossMsgs K now k m of
        Panic p \<Rightarrow> None
      | Return r \<Rightarrow> Some (snd (snd r)))"

fun pm_run :: "msg_const \<Rightarrow> pm_call list \<Rightarrow> UDPPendingMap \<Rightarrow> UDPPendingMap option" where
  "pm_run K [] m = Some m"
| "pm_run K (c # cs) m = (case pm_step K c m of None \<Rightarrow> None | Some m' \<Rightarrow> pm_run K cs m')"

text \<open>
  The state of the slot window: no two pending seqs share a slot \<open>seq mod 8\<close>, and
  the bits set in \<open>waitBits\<close> are the slots of the pending seqs.
\<close>

definition pm_wf :: "UDPPendingMap \<Rightarrow> bool" where
  "pm_wf m \<longleftrightarrow>
     (\<forall>s t. Pending m s \<noteq> None \<and> Pending m t \<noteq> None \<and> s mod 8 = t mod 8 \<longrightarrow> s = t)
     \<and> (\<forall>j. bit (waitBits m) j \<longleftrightarrow> (\<exists>s. Pending m s \<noteq> None \<and> unat (s mod 8) = j))"

section \<open>The UDP connection\<close>

text \<open>
  \<open>ConnCommonFields\<close> is not among the sources; of it the connection uses the sequence
  counter and the embedded pending map, here the plain \<open>PendingMap\<close> whose \<open>AddMsg\<close>
  never waits. \<open>wire\<close> lists the datagrams handed to \<open>WriteToUDP\<close>, oldest first; the
  error that call reports is the argument \<open>sock\<close>.
\<close>

record UDPConn =
  seq :: u32
  pendingMap :: PendingMap
  wire :: "byte list list"
  lastTime :: int
  closed :: bool

definition ReadLoop :: "UDPConn \<Rightarrow> unit go" where
  "ReadLoop c = Panic (PanicString ''UDPConn unimplemented ReadLoop'')"

definition WriteBytes :: "(byte list \<Rightarrow> 'e option) \<Rightarrow> byte list \<Rightarrow> UDPConn \<Rightarrow> 'e option \<times> UDPConn" where
  "WriteBytes sock bytes c = (sock bytes, c\<lparr>wire := wire c @ [bytes]\<rparr>)"

text \<open>
  \<open>Write\<close> keeps the pointer \<open>m\<close> that it stored in the pending map, so the cache that
  \<open>m.Bytes()\<close> fills is the stored message's.
\<close>

definition Write ::
  "msg_const \<Rightarrow> (byte list \<Rightarrow> 'e option) \<Rightarrow> int \<Rightarrow> byte list \<Rightarrow> UDPConn
   \<Rightarrow> ('e option \<times> UDPConn) go" where
  "Write K sock now bytes c =
     (let s = seq c + 1;
          c = c\<lparr>seq := s\<rparr>;
          m = New (TYPE_NORMAL K) s bytes;
          pm = AddMsg K now s m (pendingMap c)
      in
      go_bind (Bytes (Transmitted K now m)) (\<lambda>r.
      Return (WriteBytes sock (fst r)
                (c\<lparr>pendingMap := pm\<lparr>Pending := (Pending pm)(s \<mapsto> snd r)\<rparr>\<rparr>))))"

definition Ack ::
  "msg_const \<Rightarrow> (byte list \<Rightarrow> 'e option) \<Rightarrow> u32 \<Rightarrow> UDPConn \<Rightarrow> ('e option \<times> UDPConn) go" where
  "Ack K sock sq c =
     (let resp = replicate MSG_SEQ_END 0 in
      go_bind (set_index resp MSG_TYPE_BEGIN (TYPE_ACK K)) (\<lambda>resp.
      go_bind (put_u32_at resp MSG_SEQ_BEGIN (length resp) sq) (\<lambda>resp.
      Return (WriteBytes sock resp c))))"

definition GetNextSeq :: "UDPConn \<Rightarrow> u32 \<times> UDPConn" where
  "GetNextSeq c = (seq c + 1, c\<lparr>seq := seq c + 1\<rparr>)"

section \<open>The encodings in closed form, and sample values\<close>

text \<open>
  The layout \<open>| type (1) | seq (4) | len (4) | body (len) |\<close>: the body field holds the
  first \<open>len\<close> bytes of \<open>Body\<close>, padded with zeros where \<open>Body\<close> is shorter.
\<close>

definition msg_encoding :: "'a Message_scheme \<Rightarrow> byte list" where
  "msg_encoding msg =
     Type msg # be_bytes (Seq msg) @ be_bytes (Len msg)
       @ take (unat (Len msg)) (Body msg) @ replicate (unat (Len msg) - length (Body msg)) 0"

text \<open>
  The framing \<open>| crc32 (4, big-endian, over the remainder) | type (1) | seq (4) | len (4) |
  body (len) |\<close> as a predicate on a datagram.
\<close>

definition crc_framed :: "byte list \<Rightarrow> bool" where
  "crc_framed d =
     (PKG_HEADER_SIZE + MSG_HEADER_SIZE \<le> length d
      \<and> take 4 d = be_bytes (ChecksumIEEE (drop 4 d))
      \<and> Uint32 (take 4 (drop 9 d)) = Return (of_nat (length d - 13)))"

text \<open>
  Sample values for the constants that the sources leave open, a resend function that
  counts its calls and never fails, and one that always fails.
\<close>

definition sample_const :: msg_const where
  "sample_const =
     \<lparr>TYPE_NORMAL = 0, TYPE_ACK = 1, MSG_STATUS_TRANSMITTED = 1, MSG_STATUS_ACKED = 2,
      MAX_MESSAGE_SIZE = 1024\<rparr>"

definition resend_ok :: "nat \<Rightarrow> unit option \<times> nat" where
  "resend_ok w = (None, Suc w)"

definition resend_fails :: "nat \<Rightarrow> unit option \<times> nat" where
  "resend_fails w = (Some (), Suc w)"

definition sock_ok :: "byte list \<Rightarrow> unit option" where
  "sock_ok d = None"

definition sample_conn :: UDPConn where
  "sample_conn = \<lparr>seq = 0, pendingMap = NewPendingMap, wire = [], lastTime = 0, closed = False\<rparr>"

text \<open>
  A schedule on a fresh UDP pending map and the map it leads to (seqs 1 and 3 pending,
  seq 2 acked), and the map with seqs 1 and 2 pending.
\<close>

definition sample_calls :: "pm_call list" where
  "sample_calls =
     [CallAddMsg 10 1 (New 0 1 [7]), CallAddMsg 11 2 (New 0 2 [8]),
      CallDelMsgAndGetLossMsgs 12 2, CallAddMsg 13 3 (New 0 3 [9])]"

definition sample_map :: UDPPendingMap where
  "sample_map =
     \<lparr>Pending = [1 \<mapsto> Transmitted sample_const 10 (New 0 1 [7]),
                 3 \<mapsto> Transmitted sample_const 13 (New 0 3 [9])],
      ackedMessages = [2 \<mapsto> Acked sample_const 12 (Transmitted sample_const 11 (New 0 2 [8]))],
      lastMinuteAcked = Map.empty, statistics = [], waitBits = 10\<rparr>"

definition two_pending :: UDPPendingMap where
  "two_pending =
     \<lparr>Pending = [1 \<mapsto> Transmitted sample_const 10 (New 0 1 [7]),
                 2 \<mapsto> Transmitted sample_const 11 (New 0 2 [8])],
      ackedMessages = Map.empty, lastMinuteAcked = Map.empty, statistics = [], waitBits = 6\<rparr>"

section \<open>Properties\<close>

subsection \<open>Byte-level lemmas\<close>

lemma length_be_bytes [simp]: "length (be_bytes v) = 4"
  by (simp add: be_bytes_def)

lemma go_bind_Return [simp]: "go_bind (Return x) f = f x"
  by (simp add: go_bind_def)

lemma go_bind_Panic [simp]: "go_bind (Panic p) f = Panic p"
  by (simp add: go_bind_def)

lemma put_u32_at_ok:
  "a + 4 = b \<Longrightarrow> b \<le> length xs \<Longrightarrow>
   put_u32_at xs a b v = Return (take a xs @ be_bytes v @ drop b xs)"
  by (auto simp: put_u32_at_def subslice_def PutUint32_def write_back_def)

lemma put_u32_at_whole:
  "4 \<le> length xs \<Longrightarrow> put_u32_at xs 0 (length xs) v = Return (be_bytes v @ drop 4 xs)"
  by (simp add: put_u32_at_def subslice_def PutUint32_def write_back_def)

lemma put_header_ok:
  assumes "9 \<le> length m"
  shows "put_header msg m = Return (Type msg # be_bytes (Seq msg) @ be_bytes (Len msg) @ drop 9 m)"
proof -
  obtain x xs where m: "m = x # xs" using assms by (cases m) auto
  have l: "8 \<le> length xs" using assms m by simp
  show ?thesis
    using l
    by (simp add: put_header_def set_index_def m put_u32_at_ok MSG_SEQ_BEGIN_def MSG_SEQ_END_def
        MSG_LEN_BEGIN_def MSG_LEN_END_def)
qed

lemma copy_at_ok:
  "a \<le> length xs \<Longrightarrow>
   copy_at xs a src = Return (take a xs @ take (length xs - a) src @ drop (a + length src) xs)"
  by (auto simp: copy_at_def subslice_def write_back_def go_copy_def min_def add.commute)

lemma length_msg_encoding: "length (msg_encoding msg) = 9 + unat (Len msg)"
  by (simp add: msg_encoding_def)

lemma unat_9_plus:
  fixes l :: u32
  assumes "unat l + 9 < 2 ^ 32"
  shows "unat (9 + l) = 9 + unat l"
  using assms by (simp add: unat_word_ariths)

lemma unat_13_plus:
  fixes l :: u32
  assumes "unat l + 13 < 2 ^ 32"
  shows "unat (13 + l) = 13 + unat l"
  using assms by (simp add: unat_word_ariths)

lemma encode_into_zeros:
  "go_bind (put_header msg (replicate (9 + unat (Len msg)) 0)) (\<lambda>r. copy_at r MSG_HEADER_END (Body msg))
   = Return (msg_encoding msg)"
proof -
  let ?h = "Type msg # be_bytes (Seq msg) @ be_bytes (Len msg)"
  let ?n = "unat (Len msg)"
  have lh: "length ?h = 9" by simp
  have ph: "put_header msg (replicate (9 + ?n) 0) = Return (?h @ replicate ?n 0)"
    by (simp add: put_header_ok)
  have "copy_at (?h @ replicate ?n 0) 9 (Body msg)
      = Return (take 9 (?h @ replicate ?n 0) @ take (length (?h @ replicate ?n 0) - 9) (Body msg)
                @ drop (9 + length (Body msg)) (?h @ replicate ?n 0))"
    by (rule copy_at_ok) simp
  also have "take 9 (?h @ replicate ?n 0) = ?h"
    using lh by simp
  also have "length (?h @ replicate ?n 0) - 9 = ?n"
    by simp
  also have "drop (9 + length (Body msg)) (?h @ replicate ?n 0) = replicate (?n - length (Body msg)) 0"
  proof -
    have "drop (9 + k) (h @ r) = drop k r" if "length h = 9" for h r :: "byte list" and k
      using that by simp
    from this [OF lh] show ?thesis by simp
  qed
  finally show ?thesis
    by (simp add: ph MSG_HEADER_END_def msg_encoding_def)
qed

lemma Bytes_fresh:
  assumes "cache msg = []" and "unat (Len msg) + 9 < 2 ^ 32"
  shows "Bytes msg = Return (msg_encoding msg, msg\<lparr>cache := msg_encoding msg\<rparr>)"
proof -
  have "Bytes msg =
      go_bind (go_bind (put_header msg (replicate (9 + unat (Len msg)) 0))
                 (\<lambda>r. copy_at r MSG_HEADER_END (Body msg)))
        (\<lambda>result. Return (result, msg\<lparr>cache := result\<rparr>))"
    using assms by (simp add: Bytes_def MSG_HEADER_SIZE_def unat_9_plus go_bind_def split: go.splits)
  then show ?thesis by (simp add: encode_into_zeros)
qed

lemma PkgBytes_fresh:
  assumes "cache msg = []" and "unat (Len msg) + 13 < 2 ^ 32"
  shows "PkgBytes msg =
     Return (be_bytes (ChecksumIEEE (msg_encoding msg)) @ msg_encoding msg,
             msg\<lparr>cache := be_bytes (ChecksumIEEE (msg_encoding msg)) @ msg_encoding msg\<rparr>)"
proof -
  let ?n = "unat (Len msg)"
  let ?z = "replicate (13 + ?n) (0::byte)"
  let ?e = "msg_encoding msg"
  have n: "unat (of_nat PKG_HEADER_SIZE + of_nat MSG_HEADER_SIZE + Len msg) = 13 + ?n"
    using unat_13_plus [OF assms(2)] by (simp add: PKG_HEADER_SIZE_def MSG_HEADER_SIZE_def)
  have sub: "subslice ?z PKG_HEADER_SIZE (length ?z) = Return (replicate (9 + ?n) 0)"
    by (simp add: subslice_def PKG_HEADER_SIZE_def)
  have enc: "go_bind (put_header msg (replicate (9 + ?n) 0)) (\<lambda>r. go_bind (copy_at r MSG_HEADER_END (Body msg)) f)
       = f ?e" for f :: "byte list \<Rightarrow> (byte list \<times> 'a Message_scheme) go"
    using encode_into_zeros [of msg]
    by (cases "put_header msg (replicate (9 + ?n) 0)") (simp_all)
  have wb: "write_back ?z PKG_HEADER_SIZE ?e = replicate 4 0 @ ?e"
    by (simp add: write_back_def PKG_HEADER_SIZE_def length_msg_encoding)
  have crc: "put_u32_at (replicate 4 0 @ ?e) PKG_CRC32_BEGIN
        (length (replicate 4 (0::byte) @ ?e)) v = Return (be_bytes v @ ?e)" for v
    unfolding PKG_CRC32_BEGIN_def
    by (subst put_u32_at_whole) simp_all
  have "PkgBytes msg =
      go_bind (subslice ?z PKG_HEADER_SIZE (length ?z)) (\<lambda>m.
        go_bind (put_header msg m) (\<lambda>m.
        go_bind (copy_at m MSG_HEADER_END (Body msg)) (\<lambda>m.
        go_bind (put_u32_at (write_back ?z PKG_HEADER_SIZE m) PKG_CRC32_BEGIN
                   (length (write_back ?z PKG_HEADER_SIZE m)) (ChecksumIEEE m)) (\<lambda>result.
        Return (result, msg\<lparr>cache := result\<rparr>)))))"
    using assms(1) unfolding PkgBytes_def n Let_def by simp
  also have "\<dots> = Return (be_bytes (ChecksumIEEE ?e) @ ?e, msg\<lparr>cache := be_bytes (ChecksumIEEE ?e) @ ?e\<rparr>)"
    unfolding sub go_bind_Return enc wb crc ..
  finally show ?thesis .
qed

lemma be_bytes_join:
  fixes v :: u32
  shows "ucast (ucast v :: byte) OR push_bit 8 (ucast (ucast (drop_bit 8 v) :: byte))
        OR push_bit 16 (ucast (ucast (drop_bit 16 v) :: byte))
        OR push_bit 24 (ucast (ucast (drop_bit 24 v) :: byte)) = v" (is "?l = v")
proof (rule bit_word_eqI)
  fix n :: nat
  assume "n < LENGTH(32)"
  then consider "n < 8" | "8 \<le> n" "n < 16" | "16 \<le> n" "n < 24" | "24 \<le> n" "n < 32"
    by fastforce
  then show "bit ?l n = bit v n"
    by cases (auto simp: bit_simps)
qed

lemma Uint32_be_bytes: "Uint32 (be_bytes v @ xs) = Return v"
  by (simp add: Uint32_def be_bytes_def be_bytes_join)



subsection \<open>The shared cache of \<open>Bytes\<close> and \<open>PkgBytes\<close>\<close>

lemma msg_encoding_New:
  "length bytes < 2 ^ 32 \<Longrightarrow>
   msg_encoding (New t s bytes) = t # be_bytes s @ be_bytes (of_nat (length bytes)) @ bytes"
  by (simp add: msg_encoding_def New_def unat_of_nat)

text \<open>
  Claim C10. On a message whose cache is empty, \<open>Bytes()\<close> stores the header-only
  encoding of \<open>9 + Len\<close> bytes in the cache, and from then on \<open>PkgBytes()\<close> returns that
  buffer, without the 4-byte CRC-32 prefix, and leaves the message as it is (so every later
  call does the same); had \<open>PkgBytes()\<close> been called first, it would have returned the
  \<open>13 + Len\<close> bytes with the CRC-32 in front. \<open>TotalSize()\<close> is \<open>9 + Len\<close> in the first
  case and \<open>13 + Len\<close> in the second. \<open>Len\<close> is small enough for the \<open>uint32\<close> sizes not
  to wrap.
\<close>

theorem bytes_first_fixes_pkgbytes:
  assumes "cache msg = []" and "unat (Len msg) + 13 < 2 ^ 32"
  shows "Bytes msg = Return (msg_encoding msg, msg\<lparr>cache := msg_encoding msg\<rparr>)
     \<and> length (msg_encoding msg) = 9 + unat (Len msg)
     \<and> PkgBytes (msg\<lparr>cache := msg_encoding msg\<rparr>)
         = Return (msg_encoding msg, msg\<lparr>cache := msg_encoding msg\<rparr>)
     \<and> TotalSize (msg\<lparr>cache := msg_encoding msg\<rparr>) = 9 + int (unat (Len msg))
     \<and> PkgBytes msg
         = Return (be_bytes (ChecksumIEEE (msg_encoding msg)) @ msg_encoding msg,
                   msg\<lparr>cache := be_bytes (ChecksumIEEE (msg_encoding msg)) @ msg_encoding msg\<rparr>)
     \<and> TotalSize (msg\<lparr>cache := be_bytes (ChecksumIEEE (msg_encoding msg)) @ msg_encoding msg\<rparr>)
         = 13 + int (unat (Len msg))
     \<and> be_bytes (ChecksumIEEE (msg_encoding msg)) @ msg_encoding msg \<noteq> msg_encoding msg"
proof -
  have b: "Bytes msg = Return (msg_encoding msg, msg\<lparr>cache := msg_encoding msg\<rparr>)"
    using assms by (simp add: Bytes_fresh)
  have ne: "msg_encoding msg \<noteq> []"
    by (simp add: msg_encoding_def)
  have p1: "PkgBytes (msg\<lparr>cache := msg_encoding msg\<rparr>)
         = Return (msg_encoding msg, msg\<lparr>cache := msg_encoding msg\<rparr>)"
    using ne by (simp add: PkgBytes_def)
  have t1: "TotalSize (msg\<lparr>cache := msg_encoding msg\<rparr>) = 9 + int (unat (Len msg))"
    using ne by (simp add: TotalSize_def length_msg_encoding)
  have t2: "TotalSize (msg\<lparr>cache := be_bytes (ChecksumIEEE (msg_encoding msg)) @ msg_encoding msg\<rparr>)
         = 13 + int (unat (Len msg))"
    using ne by (simp add: TotalSize_def length_msg_encoding)
  have d: "be_bytes (ChecksumIEEE (msg_encoding msg)) @ msg_encoding msg \<noteq> msg_encoding msg"
  proof
    assume "be_bytes (ChecksumIEEE (msg_encoding msg)) @ msg_encoding msg = msg_encoding msg"
    then have "length (be_bytes (ChecksumIEEE (msg_encoding msg)) @ msg_encoding msg)
        = length (msg_encoding msg)" by simp
    then show False by simp
  qed
  show ?thesis
    using b p1 t1 t2 d PkgBytes_fresh [OF assms] length_msg_encoding [of msg] by simp
qed

theorem bytes_first_fixes_pkgbytes_witness:
  "cache (New 0 1 [7, 8]) = [] \<and> unat (Len (New 0 1 [7, 8])) + 13 < (2::nat) ^ 32
   \<and> Bytes (New 0 1 [7, 8])
       = Return ([0, 0, 0, 0, 1, 0, 0, 0, 2, 7, 8],
                 (New 0 1 [7, 8])\<lparr>cache := [0, 0, 0, 0, 1, 0, 0, 0, 2, 7, 8]\<rparr>)
   \<and> PkgBytes ((New 0 1 [7, 8])\<lparr>cache := [0, 0, 0, 0, 1, 0, 0, 0, 2, 7, 8]\<rparr>)
       = Return ([0, 0, 0, 0, 1, 0, 0, 0, 2, 7, 8],
                 (New 0 1 [7, 8])\<lparr>cache := [0, 0, 0, 0, 1, 0, 0, 0, 2, 7, 8]\<rparr>)
   \<and> TotalSize ((New 0 1 [7, 8])\<lparr>cache := [0, 0, 0, 0, 1, 0, 0, 0, 2, 7, 8]\<rparr>) = 11
   \<and> fst (case PkgBytes (New 0 1 [7, 8]) of Return r \<Rightarrow> r)
       = be_bytes (ChecksumIEEE [0, 0, 0, 0, 1, 0, 0, 0, 2, 7, 8])
           @ [0, 0, 0, 0, 1, 0, 0, 0, 2, 7, 8]"
proof -
  have c: "cache (New 0 1 [7, 8]) = []"
    by (simp add: New_def)
  have l: "unat (Len (New 0 1 [7, 8])) + 13 < (2::nat) ^ 32"
    by (simp add: New_def)
  have e: "msg_encoding (New 0 1 [7, 8]) = [0, 0, 0, 0, 1, 0, 0, 0, 2, 7, 8]"
    by (simp add: msg_encoding_New be_bytes_def)
  show ?thesis
    using bytes_first_fixes_pkgbytes [OF c l] c l unfolding e by (simp add: New_def)
qed

subsection \<open>What the UDP connection writes\<close>

lemma Uint32_be_bytes_only: "Uint32 (be_bytes v) = Return v"
  using Uint32_be_bytes [of v "[]"] by simp

lemma Write_datagram:
  assumes "length bytes + 9 < 2 ^ 32"
  shows "\<exists>c'. Write K sock now bytes c
           = Return (sock (TYPE_NORMAL K # be_bytes (seq c + 1) @ be_bytes (of_nat (length bytes)) @ bytes), c')
         \<and> wire c' = wire c @ [TYPE_NORMAL K # be_bytes (seq c + 1) @ be_bytes (of_nat (length bytes)) @ bytes]"
proof -
  let ?m = "Transmitted K now (New (TYPE_NORMAL K) (seq c + 1) bytes)"
  have l: "length bytes < 2 ^ 32" using assms by simp
  have c: "cache ?m = []" by (simp add: Transmitted_def New_def)
  have n: "unat (Len ?m) + 9 < 2 ^ 32"
    using assms by (simp add: Transmitted_def New_def unat_of_nat)
  have e: "msg_encoding ?m = msg_encoding (New (TYPE_NORMAL K) (seq c + 1) bytes)"
    by (simp add: msg_encoding_def Transmitted_def)
  show ?thesis
    unfolding Write_def Let_def Bytes_fresh [OF c n] e msg_encoding_New [OF l]
    by (simp add: WriteBytes_def)
qed

lemma Ack_datagram:
  "Ack K sock sq c = Return (sock (TYPE_ACK K # be_bytes sq), c\<lparr>wire := wire c @ [TYPE_ACK K # be_bytes sq]\<rparr>)"
proof -
  have "put_u32_at (TYPE_ACK K # replicate 4 0) 1 (length (TYPE_ACK K # replicate 4 (0::byte))) sq
      = Return (TYPE_ACK K # be_bytes sq)"
    by (simp add: put_u32_at_def subslice_def PutUint32_def write_back_def)
  then show ?thesis
    by (simp add: Ack_def MSG_SEQ_END_def MSG_TYPE_BEGIN_def MSG_SEQ_BEGIN_def set_index_def
        WriteBytes_def numeral_eq_Suc)
qed

lemma PkgBytes_New_framed:
  assumes "length bytes + 13 < 2 ^ 32"
  shows "\<exists>p msg'. PkgBytes (New t s bytes) = Return (p, msg') \<and> crc_framed p
           \<and> drop 4 p = t # be_bytes s @ be_bytes (of_nat (length bytes)) @ bytes"
proof -
  let ?e = "t # be_bytes s @ be_bytes (of_nat (length bytes)) @ bytes"
  let ?p = "be_bytes (ChecksumIEEE ?e) @ ?e"
  have l: "length bytes < 2 ^ 32" using assms by simp
  have c: "cache (New t s bytes) = []" by (simp add: New_def)
  have n: "unat (Len (New t s bytes)) + 13 < 2 ^ 32"
    using assms by (simp add: New_def unat_of_nat)
  have pk: "PkgBytes (New t s bytes) = Return (?p, (New t s bytes)\<lparr>cache := ?p\<rparr>)"
    using PkgBytes_fresh [OF c n] unfolding msg_encoding_New [OF l] .
  have d4: "drop 4 ?p = ?e" by simp
  have d9: "drop 9 ?p = be_bytes (of_nat (length bytes)) @ bytes"
  proof -
    have "drop 9 (h @ r) = r" if "length h = 9" for h r :: "byte list"
      using that by simp
    from this [of "be_bytes (ChecksumIEEE ?e) @ t # be_bytes s" "be_bytes (of_nat (length bytes)) @ bytes"]
    show ?thesis by simp
  qed
  have "crc_framed ?p"
    unfolding crc_framed_def d9 d4
    by (simp add: PKG_HEADER_SIZE_def MSG_HEADER_SIZE_def Uint32_be_bytes_only)
  with pk d4 show ?thesis by blast
qed

text \<open>
  Claim C3, as amended. \<open>Write\<close> hands to the socket the \<open>Bytes\<close> encoding of a fresh
  NORMAL message, \<open>| type (1) | seq (4) | len (4) | body (len) |\<close> with the next sequence
  number, of \<open>MSG_HEADER_SIZE + len\<close> bytes and with no CRC-32 in front (for a body short
  enough for the \<open>uint32\<close> buffer size not to wrap); \<open>Ack\<close> hands to the socket the five
  bytes \<open>| type = ACK (1) | seq (4) |\<close>, with neither CRC-32 nor len field. The framing
  with the CRC-32 in front is what \<open>PkgBytes\<close> builds for a new message; neither
  \<open>Write\<close> nor \<open>Ack\<close> calls it.
\<close>

theorem udp_conn_datagrams:
  "(length bytes + 9 < 2 ^ 32 \<longrightarrow>
      (\<exists>c'. Write K sock now bytes c
            = Return (sock (TYPE_NORMAL K # be_bytes (seq c + 1)
                              @ be_bytes (of_nat (length bytes)) @ bytes), c')
          \<and> wire c' = wire c @ [TYPE_NORMAL K # be_bytes (seq c + 1)
                                  @ be_bytes (of_nat (length bytes)) @ bytes]))
   \<and> Ack K sock sq c
       = Return (sock (TYPE_ACK K # be_bytes sq), c\<lparr>wire := wire c @ [TYPE_ACK K # be_bytes sq]\<rparr>)
   \<and> length (TYPE_NORMAL K # be_bytes (seq c + 1) @ be_bytes (of_nat (length bytes)) @ bytes)
       = MSG_HEADER_SIZE + length bytes
   \<and> length (TYPE_ACK K # be_bytes sq) = 5
   \<and> (length bytes + 13 < 2 ^ 32 \<longrightarrow>
        (\<exists>p msg'. PkgBytes (New t s bytes) = Return (p, msg') \<and> crc_framed p
           \<and> drop 4 p = t # be_bytes s @ be_bytes (of_nat (length bytes)) @ bytes))"
  using Write_datagram [of bytes K sock now c] Ack_datagram [of K sock sq c]
    PkgBytes_New_framed [of bytes t s]
  by (simp add: MSG_HEADER_SIZE_def)

theorem udp_conn_datagrams_witness:
  "length [7, 8 :: byte] + 13 < (2::nat) ^ 32
   \<and> (\<exists>c'. Write sample_const sock_ok 0 [7, 8] sample_conn
            = Return (None, c') \<and> wire c' = [[0, 0, 0, 0, 1, 0, 0, 0, 2, 7, 8]])
   \<and> Ack sample_const sock_ok 1 sample_conn
       = Return (None, sample_conn\<lparr>wire := [[1, 0, 0, 0, 1]]\<rparr>)
   \<and> (\<exists>p msg'. PkgBytes (New 0 1 [7, 8]) = Return (p, msg') \<and> crc_framed p
         \<and> drop 4 p = [0, 0, 0, 0, 1, 0, 0, 0, 2, 7, 8])"
  using udp_conn_datagrams [of "[7, 8]" sample_const sock_ok 0 sample_conn 1 0 1]
  by (simp add: sample_const_def sample_conn_def sock_ok_def be_bytes_def)

text \<open>
  Claim C3 as stated fails: the acknowledgement of seq 1 is five bytes long, and the
  datagram written for the body \<open>[7, 8]\<close> is the eleven bytes of type, seq, len and body;
  neither is a CRC-framed datagram.
\<close>

theorem udp_conn_datagrams_counterexample:
  "Ack sample_const sock_ok 1 sample_conn = Return (None, sample_conn\<lparr>wire := [[1, 0, 0, 0, 1]]\<rparr>)
   \<and> \<not> crc_framed [1, 0, 0, 0, 1]
   \<and> (case Write sample_const sock_ok 0 [7, 8] sample_conn of
         Return r \<Rightarrow> wire (snd r) | Panic p \<Rightarrow> [])
       = [[0, 0, 0, 0, 1, 0, 0, 0, 2, 7, 8]]
   \<and> \<not> crc_framed [0, 0, 0, 0, 1, 0, 0, 0, 2, 7, 8]"
proof -
  have a: "Ack sample_const sock_ok 1 sample_conn = Return (None, sample_conn\<lparr>wire := [[1, 0, 0, 0, 1]]\<rparr>)"
    by (simp add: Ack_datagram sample_const_def sample_conn_def sock_ok_def be_bytes_def)
  have w: "(case Write sample_const sock_ok 0 [7, 8] sample_conn of
         Return r \<Rightarrow> wire (snd r) | Panic p \<Rightarrow> [])
       = [[0, 0, 0, 0, 1, 0, 0, 0, 2, 7, 8]]"
    using Write_datagram [of "[7, 8]" sample_const sock_ok 0 sample_conn]
    by (auto simp: sample_const_def sample_conn_def sock_ok_def be_bytes_def)
  have f: "\<not> crc_framed [1, 0, 0, 0, 1]" "\<not> crc_framed [0, 0, 0, 0, 1, 0, 0, 0, 2, 7, 8]"
    by (simp_all add: crc_framed_def PKG_HEADER_SIZE_def MSG_HEADER_SIZE_def)
  show ?thesis using a w f by simp
qed

subsection \<open>Parsing a header\<close>

text \<open>
  Claim C8, as amended. \<open>NewByHeader\<close> on a header whose len field exceeds
  \<open>MAX_MESSAGE_SIZE\<close> panics, the panic value being the error that names the length and
  the maximum; the function has no error result.
\<close>

theorem NewByHeader_oversize_panics:
  assumes "l > MAX_MESSAGE_SIZE K"
  shows "NewByHeader K (t # be_bytes s @ be_bytes l @ rest)
           = Panic (MsgLenError l (MAX_MESSAGE_SIZE K))"
proof -
  let ?h = "t # be_bytes s @ be_bytes l @ rest"
  have s: "subslice ?h MSG_SEQ_BEGIN MSG_SEQ_END = Return (be_bytes s)"
    by (simp add: subslice_def MSG_SEQ_BEGIN_def MSG_SEQ_END_def)
  have "drop 5 ?h = be_bytes l @ rest"
  proof -
    have "drop 5 (h @ r) = r" if "length h = 5" for h r :: "byte list"
      using that by simp
    from this [of "t # be_bytes s" "be_bytes l @ rest"] show ?thesis by simp
  qed
  then have l: "subslice ?h MSG_LEN_BEGIN MSG_LEN_END = Return (be_bytes l)"
    by (simp add: subslice_def MSG_LEN_BEGIN_def MSG_LEN_END_def)
  show ?thesis
    unfolding NewByHeader_def s l using assms
    by (simp add: get_index_def Uint32_be_bytes_only)
qed

theorem NewByHeader_oversize_panics_witness:
  "(1025 :: u32) > MAX_MESSAGE_SIZE sample_const
   \<and> NewByHeader sample_const [0, 0, 0, 0, 1, 0, 0, 4, 1, 9, 9]
       = Panic (MsgLenError 1025 (MAX_MESSAGE_SIZE sample_const))"
proof -
  have h: "(1025 :: u32) > MAX_MESSAGE_SIZE sample_const"
    by (simp add: sample_const_def)
  have b: "0 # be_bytes 1 @ be_bytes 1025 @ [9, 9] = [0, 0, 0, 0, 1, 0, 0, 4, 1, 9, 9]"
    by (simp add: be_bytes_def)
  show ?thesis
    using NewByHeader_oversize_panics [OF h, of 0 1 "[9, 9]"] h unfolding b by simp
qed

text \<open>
  Claim C8 as stated fails: with the limit at 1024, the header with len field 1025 makes
  \<open>NewByHeader\<close> panic instead of returning an error.
\<close>

theorem NewByHeader_oversize_counterexample:
  "NewByHeader sample_const [0, 0, 0, 0, 1, 0, 0, 4, 1] = Panic (MsgLenError 1025 1024)"
  by (simp add: NewByHeader_def get_index_def subslice_def Uint32_def sample_const_def
      MSG_SEQ_BEGIN_def MSG_SEQ_END_def MSG_LEN_BEGIN_def MSG_LEN_END_def)

subsection \<open>The retransmission timer\<close>

lemma timer_fires_armed:
  assumes "resendTimer msg = Some (Timer rto fn True)"
  shows "timer_fires K (msg, w)
           = Some (rto_callback K rto fn (msg\<lparr>resendTimer := Some (Timer rto fn False)\<rparr>, w))"
  using assms by (simp add: timer_fires_def)

text \<open>
  Claim C6. When an armed resend timer fires: if the acked bit of the status is set, the
  resend function is not run (the world is unchanged) and the timer stays unarmed;
  otherwise the resend function runs, and afterwards the timer is armed again exactly
  when the resend function returned no error.
\<close>

theorem rto_timer_fires:
  assumes "resendTimer msg = Some (Timer rto fn True)"
  shows "(status msg AND MSG_STATUS_ACKED K > 0 \<longrightarrow>
            timer_fires K (msg, w) = Some (msg\<lparr>resendTimer := Some (Timer rto fn False)\<rparr>, w))
       \<and> (\<not> status msg AND MSG_STATUS_ACKED K > 0 \<longrightarrow>
            (\<exists>msg'. timer_fires K (msg, w) = Some (msg', snd (fn w))
               \<and> resendTimer msg' = Some (Timer rto fn (fst (fn w) = None))))"
  unfolding timer_fires_armed [OF assms]
  by (simp add: rto_callback_def Let_def ResetMiss_def SetRTO_def)

theorem rto_timer_fires_witness:
  "resendTimer (SetRTO 200 resend_ok (NewUDP 0 1 [7] 0 0)) = Some (Timer 200 resend_ok True)
   \<and> \<not> status (SetRTO 200 resend_ok (NewUDP 0 1 [7] 0 0)) AND MSG_STATUS_ACKED sample_const > 0
   \<and> (\<exists>msg'. timer_fires sample_const (SetRTO 200 resend_ok (NewUDP 0 1 [7] 0 0), 0) = Some (msg', 1)
         \<and> resendTimer msg' = Some (Timer 200 resend_ok True))
   \<and> (\<exists>msg'. timer_fires sample_const (SetRTO 200 resend_fails (NewUDP 0 1 [7] 0 0), 0) = Some (msg', 1)
         \<and> resendTimer msg' = Some (Timer 200 resend_fails False))
   \<and> status ((UDPMessage_Acked sample_const 5 (NewUDP 0 1 [7] 0 0))
                \<lparr>resendTimer := Some (Timer 200 resend_ok True)\<rparr>)
         AND MSG_STATUS_ACKED sample_const > 0
   \<and> timer_fires sample_const
        ((UDPMessage_Acked sample_const 5 (NewUDP 0 1 [7] 0 0))
           \<lparr>resendTimer := Some (Timer 200 resend_ok True)\<rparr>, 0)
       = Some ((UDPMessage_Acked sample_const 5 (NewUDP 0 1 [7] 0 0))
           \<lparr>resendTimer := Some (Timer 200 resend_ok False)\<rparr>, 0)"
proof -
  let ?m = "SetRTO 200 resend_ok (NewUDP 0 1 [7] 0 0) :: (nat, unit) UDPMessage"
  let ?f = "SetRTO 200 resend_fails (NewUDP 0 1 [7] 0 0) :: (nat, unit) UDPMessage"
  let ?a = "(UDPMessage_Acked sample_const 5 (NewUDP 0 1 [7] 0 0 :: (nat, unit) UDPMessage))
              \<lparr>resendTimer := Some (Timer 200 resend_ok True)\<rparr>"
  have t: "resendTimer ?m = Some (Timer 200 resend_ok True)"
    by (simp add: SetRTO_def)
  have tf: "resendTimer ?f = Some (Timer 200 resend_fails True)"
    by (simp add: SetRTO_def)
  have s: "\<not> status ?m AND MSG_STATUS_ACKED sample_const > 0"
    "\<not> status ?f AND MSG_STATUS_ACKED sample_const > 0"
    by (simp_all add: SetRTO_def NewUDP_def)
  have ta: "resendTimer ?a = Some (Timer 200 resend_ok True)"
    by simp
  have sa: "status ?a AND MSG_STATUS_ACKED sample_const > 0"
    by (simp add: UDPMessage_Acked_def NewUDP_def sample_const_def)
  show ?thesis
    using rto_timer_fires [OF t, of sample_const 0] rto_timer_fires [OF tf, of sample_const 0]
      rto_timer_fires [OF ta, of sample_const 0] t s sa
    by (simp add: resend_ok_def resend_fails_def)
qed

text \<open>
  Claim C5, as amended. When the resend timer fires for a message that is not acked, the
  resend function runs, \<open>transmittedAt\<close> is left as it was, and the miss counter is reset
  to 0.
\<close>

theorem rto_fire_resets_miss:
  assumes "resendTimer msg = Some (Timer rto fn True)"
    and "\<not> status msg AND MSG_STATUS_ACKED K > 0"
  shows "\<exists>msg'. timer_fires K (msg, w) = Some (msg', snd (fn w))
           \<and> transmittedAt msg' = transmittedAt msg \<and> miss msg' = 0"
  unfolding timer_fires_armed [OF assms(1)] using assms(2)
  by (simp add: rto_callback_def Let_def ResetMiss_def SetRTO_def)

theorem rto_fire_resets_miss_witness:
  "resendTimer ((SetRTO 200 resend_ok (NewUDP 0 1 [7] 0 0))\<lparr>transmittedAt := 40, miss := 2\<rparr>)
     = Some (Timer 200 resend_ok True)
   \<and> \<not> status ((SetRTO 200 resend_ok (NewUDP 0 1 [7] 0 0))\<lparr>transmittedAt := 40, miss := 2\<rparr>)
         AND MSG_STATUS_ACKED sample_const > 0
   \<and> (\<exists>msg'. timer_fires sample_const
                ((SetRTO 200 resend_ok (NewUDP 0 1 [7] 0 0))\<lparr>transmittedAt := 40, miss := 2\<rparr>, 0)
              = Some (msg', 1)
          \<and> transmittedAt msg' = 40 \<and> miss msg' = 0)"
proof -
  let ?m = "(SetRTO 200 resend_ok (NewUDP 0 1 [7] 0 0 :: (nat, unit) UDPMessage))
              \<lparr>transmittedAt := 40, miss := 2\<rparr>"
  have t: "resendTimer ?m = Some (Timer 200 resend_ok True)"
    by (simp add: SetRTO_def)
  have s: "\<not> status ?m AND MSG_STATUS_ACKED sample_const > 0"
    by (simp add: SetRTO_def NewUDP_def)
  show ?thesis
    using rto_fire_resets_miss [OF t s, of 0] t s by (simp add: resend_ok_def)
qed

text \<open>
  Claim C5 as stated fails: a message with miss counter 2 has miss counter 0, not 3, after
  its timer fired and the message was resent.
\<close>

theorem rto_fire_miss_counterexample:
  "miss (fst (the (timer_fires sample_const
       ((SetRTO 200 resend_ok (NewUDP 0 1 [7] 0 0))\<lparr>transmittedAt := 40, miss := 2\<rparr>, 0 :: nat))))
     \<noteq> miss ((SetRTO 200 resend_ok (NewUDP 0 1 [7] 0 0))\<lparr>transmittedAt := 40, miss := 2\<rparr>) + 1"
  by (simp add: timer_fires_def rto_callback_def SetRTO_def NewUDP_def ResetMiss_def
      resend_ok_def sample_const_def)

subsection \<open>Acknowledging a seq that is not pending\<close>

lemma DelMsg_absent: "Pending m k = None \<Longrightarrow> DelMsg K now k m = (False, m)"
  by (simp add: DelMsg_def)

lemma DelMsgAndGetLossMsgs_absent:
  "Pending m k = None \<Longrightarrow> DelMsgAndGetLossMsgs K now k m = Return (False, [], m)"
  by (simp add: DelMsgAndGetLossMsgs_def)

lemma DelMsg_removes: "Pending (snd (DelMsg K now k m)) k = None"
  by (simp add: DelMsg_def split: option.splits)

lemma DelMsgAndGetLossMsgs_removes:
  "DelMsgAndGetLossMsgs K now k m = Return (ok, loss, m') \<Longrightarrow> Pending m' k = None"
  by (auto simp: DelMsgAndGetLossMsgs_def Let_def go_bind_def split: option.splits go.splits)

text \<open>
  Claim C7. For a seq \<open>k\<close> that is not in the pending map, \<open>DelMsg\<close> (on the plain and
  on the UDP map) and \<open>DelMsgAndGetLossMsgs\<close> return \<open>ok = false\<close> and leave the whole
  map as it is: the pending set, the acked messages and the wait bits. After either
  operation has been applied to \<open>k\<close> once, \<open>k\<close> is not pending, so applying it again is
  such a no-op.
\<close>

theorem ack_of_absent_seq_is_noop:
  "(Pending p k = None \<longrightarrow> DelMsg K now k (p :: PendingMap) = (False, p))
   \<and> (Pending m k = None \<longrightarrow>
        DelMsg K now k m = (False, m) \<and> DelMsgAndGetLossMsgs K now k m = Return (False, [], m))
   \<and> DelMsg K now' k (snd (DelMsg K now k p)) = (False, snd (DelMsg K now k p))
   \<and> (DelMsgAndGetLossMsgs K now k m = Return (ok, loss, m') \<longrightarrow>
        DelMsgAndGetLossMsgs K now' k m' = Return (False, [], m'))"
  using DelMsg_removes [of K now k p]
  by (auto simp: DelMsg_absent DelMsgAndGetLossMsgs_absent dest: DelMsgAndGetLossMsgs_removes)

theorem ack_of_absent_seq_is_noop_witness:
  "Pending NewPendingMap 2 = None \<and> DelMsg sample_const 20 2 NewPendingMap = (False, NewPendingMap)
   \<and> Pending sample_map 2 = None
   \<and> DelMsg sample_const 20 2 sample_map = (False, sample_map)
   \<and> DelMsgAndGetLossMsgs sample_const 20 2 sample_map = Return (False, [], sample_map)
   \<and> DelMsgAndGetLossMsgs sample_const 12 2 two_pending
       = Return (True, [],
                 two_pending\<lparr>Pending := (Pending two_pending)(2 := None), waitBits := 2,
                   ackedMessages :=
                     [2 \<mapsto> Acked sample_const 12 (Transmitted sample_const 11 (New 0 2 [8]))]\<rparr>)
   \<and> DelMsgAndGetLossMsgs sample_const 21 2
        (two_pending\<lparr>Pending := (Pending two_pending)(2 := None), waitBits := 2,
           ackedMessages :=
             [2 \<mapsto> Acked sample_const 12 (Transmitted sample_const 11 (New 0 2 [8]))]\<rparr>)
       = Return (False, [],
                 two_pending\<lparr>Pending := (Pending two_pending)(2 := None), waitBits := 2,
                   ackedMessages :=
                     [2 \<mapsto> Acked sample_const 12 (Transmitted sample_const 11 (New 0 2 [8]))]\<rparr>)"
proof -
  let ?m' = "two_pending\<lparr>Pending := (Pending two_pending)(2 := None), waitBits := 2,
                   ackedMessages :=
                     [2 \<mapsto> Acked sample_const 12 (Transmitted sample_const 11 (New 0 2 [8]))]\<rparr>"
  have a: "Pending NewPendingMap 2 = None" by (simp add: NewPendingMap_def)
  have b: "Pending sample_map 2 = None" by (simp add: sample_map_def)
  have d: "DelMsgAndGetLossMsgs sample_const 12 2 two_pending = Return (True, [], ?m')"
    by (simp add: two_pending_def DelMsgAndGetLossMsgs_def slot_bit_def)
  show ?thesis
    using ack_of_absent_seq_is_noop [of NewPendingMap 2 sample_const 20 sample_map 20 True "[]" sample_map]
      ack_of_absent_seq_is_noop [of NewPendingMap 2 sample_const 12 two_pending 21 True "[]" ?m']
      a b d
    by simp
qed

subsection \<open>Slots and wait bits\<close>

lemma slot_lt_8: "unat ((k :: u32) mod 8) < 8"
  by (simp add: unat_mod)

lemma bit_slot_bit: "bit (slot_bit k) j \<longleftrightarrow> j = unat (k mod 8)"
  using slot_lt_8 [of k] by (auto simp: slot_bit_def bit_simps)

lemma bit_byte_lt: "bit (w :: byte) j \<Longrightarrow> j < 8"
  using bit_imp_le_length [of w j] by simp

lemma byte_pos_iff: "(0 < (w :: byte)) \<longleftrightarrow> (\<exists>j. bit w j)"
proof -
  have "(0 < w) \<longleftrightarrow> w \<noteq> 0" by (simp add: word_neq_0_conv)
  also have "\<dots> \<longleftrightarrow> (\<exists>j. bit w j)"
    by (auto simp: bit_eq_iff dest: bit_byte_lt)
  finally show ?thesis .
qed

lemma and_slot_bit_pos: "(w AND slot_bit k > 0) \<longleftrightarrow> bit w (unat (k mod 8))"
  by (auto simp: byte_pos_iff bit_simps bit_slot_bit)

lemma bit_clear_slot: "bit (w AND NOT (slot_bit k)) j \<longleftrightarrow> bit w j \<and> j \<noteq> unat (k mod 8)"
  by (auto simp: bit_simps bit_slot_bit dest: bit_byte_lt)

lemma bit_set_slot: "bit (w OR slot_bit k) j \<longleftrightarrow> bit w j \<or> j = unat (k mod 8)"
  by (auto simp: bit_simps bit_slot_bit)

lemma and_prev_pos:
  "(w AND (NOT (slot_bit k) AND NOT (slot_bit k')) > 0)
     \<longleftrightarrow> (\<exists>j. bit w j \<and> j \<noteq> unat (k mod 8) \<and> j \<noteq> unat (k' mod 8))"
  by (auto simp: byte_pos_iff bit_simps bit_slot_bit dest: bit_byte_lt)

lemma slot_sub:
  fixes k :: u32
  assumes "n \<le> 8"
  shows "unat ((k - of_nat n) mod 8) = (unat k + (8 - n)) mod 8"
proof -
  have n: "unat (of_nat n :: u32) = n"
    using assms by (simp add: unat_of_nat)
  have "unat (k - of_nat n) mod 8 = (unat k + (8 - n)) mod 8"
  proof (cases "of_nat n \<le> k")
    case True
    then have le: "n \<le> unat k"
      using n by (simp add: word_le_nat_alt)
    have "unat (k - of_nat n) = unat k - n"
      using True by (simp add: unat_sub n)
    also have "\<dots> + 8 = unat k + (8 - n)"
      using le assms by simp
    finally have "(unat (k - of_nat n) + 8) mod 8 = (unat k + (8 - n)) mod 8"
      by simp
    then show ?thesis by simp
  next
    case False
    then have lt: "unat k < n"
      using n by (simp add: word_le_nat_alt)
    have "unat (k - of_nat n) = unat k + 4294967296 - n"
      using lt n by (simp add: unat_sub_if')
    also have "\<dots> = (unat k + (8 - n)) + 536870911 * 8"
      using lt assms by simp
    finally show ?thesis
      by (simp only: mod_mult_self1)
  qed
  then show ?thesis by (simp add: unat_mod)
qed

lemma slot_eq_iff: "(s :: u32) mod 8 = t mod 8 \<longleftrightarrow> unat (s mod 8) = unat (t mod 8)"
  by (simp add: word_unat_eq_iff)

lemma mod8_lt16: "x < 16 \<Longrightarrow> (x::nat) mod 8 = (if x < 8 then x else x - 8)"
  by (simp add: le_mod_geq)

lemma mod8_shift:
  assumes "n \<le> 8"
  shows "((u::nat) + (8 - n)) mod 8
           = (if u mod 8 + (8 - n) < 8 then u mod 8 + (8 - n) else u mod 8 - n)"
proof -
  have r: "u mod 8 < 8" by simp
  have "(u + (8 - n)) mod 8 = (u mod 8 + (8 - n)) mod 8"
    by (simp add: mod_add_left_eq)
  also have "\<dots> = (if u mod 8 + (8 - n) < 8 then u mod 8 + (8 - n) else u mod 8 + (8 - n) - 8)"
    using r assms by (intro mod8_lt16) linarith
  also have "\<dots> = (if u mod 8 + (8 - n) < 8 then u mod 8 + (8 - n) else u mod 8 - n)"
    using assms by auto
  finally show ?thesis .
qed

lemma mod8_a: "1 \<le> n \<Longrightarrow> n \<le> 7 \<Longrightarrow> (u + (8 - n)) mod 8 \<noteq> (u::nat) mod 8"
  by (simp only: mod8_shift [of n u] split: if_splits) linarith

lemma mod8_pred1: "((u::nat) + 7) mod 8 = (if u mod 8 = 0 then 7 else u mod 8 - 1)"
proof -
  have "(u + 7) mod 8 = (u + (8 - 1)) mod 8" by simp
  also have "\<dots> = (if u mod 8 + (8 - 1) < 8 then u mod 8 + (8 - 1) else u mod 8 - 1)"
    by (rule mod8_shift) simp
  also have "\<dots> = (if u mod 8 = 0 then 7 else u mod 8 - 1)"
    by auto
  finally show ?thesis .
qed

lemma mod8_b: "2 \<le> n \<Longrightarrow> n \<le> 7 \<Longrightarrow> (u + (8 - n)) mod 8 \<noteq> ((u::nat) + 7) mod 8"
  by (simp only: mod8_shift [of n u] mod8_pred1 split: if_splits) linarith

lemma slot_mod: "unat ((k :: u32) mod 8) = unat k mod 8"
  by (simp add: unat_mod)

lemma slot_pred_neq:
  fixes k :: u32
  assumes "1 \<le> n" "n \<le> 7"
  shows "unat ((k - of_nat n) mod 8) \<noteq> unat (k mod 8)"
proof -
  have "unat ((k - of_nat n) mod 8) = (unat k + (8 - n)) mod 8"
    using assms by (intro slot_sub) simp
  moreover have "unat (k mod 8) = unat k mod 8"
    by (rule slot_mod)
  ultimately show ?thesis
    using mod8_a [OF assms, of "unat k"] by metis
qed

lemma pred_neq:
  fixes k :: u32
  assumes "1 \<le> n" "n \<le> 7"
  shows "k - of_nat n \<noteq> k"
  using slot_pred_neq [OF assms, of k] by auto

lemma slot_pred_neq_pred1:
  fixes k :: u32
  assumes "2 \<le> n" "n \<le> 7"
  shows "unat ((k - of_nat n) mod 8) \<noteq> unat ((k - 1) mod 8)"
proof -
  have a: "unat ((k - of_nat n) mod 8) = (unat k + (8 - n)) mod 8"
    using assms by (intro slot_sub) simp
  have "unat ((k - of_nat 1) mod 8) = (unat k + (8 - 1)) mod 8"
    by (intro slot_sub) simp
  then have b: "unat ((k - 1) mod 8) = (unat k + 7) mod 8"
    by simp
  show ?thesis
    using mod8_b [OF assms, of "unat k"] a b by metis
qed

declare loss_scan.simps [simp del]

lemma loss_scan_ok:
  assumes "\<And>j. 2 \<le> j \<Longrightarrow> j \<le> n \<Longrightarrow> (wb AND slot_bit (k - of_nat j) > 0) = (P (k - of_nat j) \<noteq> None)"
  shows "loss_scan P wb k n acc
           = Return (acc @ List.map_filter (\<lambda>j. P (k - of_nat j)) (rev [2..<Suc n]))"
  using assms
proof (induction n arbitrary: acc)
  case 0
  show ?case by (simp add: loss_scan.simps [of P wb k 0] List.map_filter_simps)
next
  case (Suc n)
  show ?case
  proof (cases "n = 0")
    case True
    then show ?thesis by (simp add: loss_scan.simps [of P wb k "Suc 0"] List.map_filter_simps)
  next
    case False
    then have two: "2 \<le> Suc n" by simp
    have r: "rev [2..<Suc (Suc n)] = Suc n # rev [2..<Suc n]"
      using two by simp
    have ih: "loss_scan P wb k n acc'
           = Return (acc' @ List.map_filter (\<lambda>j. P (k - of_nat j)) (rev [2..<Suc n]))" for acc'
      using Suc.prems by (intro Suc.IH) simp_all
    have here: "(wb AND slot_bit (k - of_nat (Suc n)) > 0) = (P (k - of_nat (Suc n)) \<noteq> None)"
      using Suc.prems [of "Suc n"] two by simp
    show ?thesis
    proof (cases "P (k - of_nat (Suc n))")
      case None
      then show ?thesis
        using here two
        by (subst loss_scan.simps) (simp add: r ih List.map_filter_simps Let_def del: upt_Suc of_nat_Suc)
    next
      case (Some l)
      then show ?thesis
        using here two
        by (subst loss_scan.simps) (simp add: r ih List.map_filter_simps Let_def del: upt_Suc of_nat_Suc)
    qed
  qed
qed

subsection \<open>The slot window of the UDP pending map\<close>

lemma pm_wf_New: "pm_wf NewUDPPendingMap"
  by (simp add: pm_wf_def NewUDPPendingMap_def)

lemma AddMsg_Some:
  assumes "UDPPendingMap_AddMsg K now k v m = Some m'"
  shows "\<not> bit (waitBits m) (unat (k mod 8))"
    and "m' = m\<lparr>Pending := (Pending m)(k \<mapsto> Transmitted K now v),
                 waitBits := waitBits m OR slot_bit k\<rparr>"
  using assms by (auto simp: UDPPendingMap_AddMsg_def and_slot_bit_pos split: if_splits)

lemma pm_wf_AddMsg:
  assumes wf: "pm_wf m" and add: "UDPPendingMap_AddMsg K now k v m = Some m'"
  shows "pm_wf m'"
proof -
  note a = AddMsg_Some [OF add]
  have uniq: "Pending m s \<noteq> None \<Longrightarrow> Pending m t \<noteq> None \<Longrightarrow> s mod 8 = t mod 8 \<Longrightarrow> s = t" for s t
    using wf by (auto simp: pm_wf_def)
  have bits: "bit (waitBits m) j \<longleftrightarrow> (\<exists>s. Pending m s \<noteq> None \<and> unat (s mod 8) = j)" for j
    using wf by (simp add: pm_wf_def)
  have free: "Pending m s \<noteq> None \<Longrightarrow> unat (s mod 8) \<noteq> unat (k mod 8)" for s
    using bits [of "unat (k mod 8)"] a(1) by blast
  show ?thesis
    unfolding pm_wf_def a(2)
  proof (intro conjI allI impI)
    fix s t
    assume h: "Pending (m\<lparr>Pending := (Pending m)(k \<mapsto> Transmitted K now v),
                 waitBits := waitBits m OR slot_bit k\<rparr>) s \<noteq> None \<and>
           Pending (m\<lparr>Pending := (Pending m)(k \<mapsto> Transmitted K now v),
                 waitBits := waitBits m OR slot_bit k\<rparr>) t \<noteq> None \<and> s mod 8 = t mod 8"
    then show "s = t"
      using free [of s] free [of t] uniq [of s t] by (auto split: if_splits)
  next
    fix j
    show "bit (waitBits (m\<lparr>Pending := (Pending m)(k \<mapsto> Transmitted K now v),
                 waitBits := waitBits m OR slot_bit k\<rparr>)) j
       \<longleftrightarrow> (\<exists>s. Pending (m\<lparr>Pending := (Pending m)(k \<mapsto> Transmitted K now v),
                 waitBits := waitBits m OR slot_bit k\<rparr>) s \<noteq> None \<and> unat (s mod 8) = j)"
      by (auto simp: bit_set_slot bits)
  qed
qed

lemma Del_Return:
  assumes "DelMsgAndGetLossMsgs K now k m = Return (ok, loss, m')" and "Pending m k = Some v"
  shows "ok" and "m' = m\<lparr>Pending := (Pending m)(k := None),
                         waitBits := waitBits m AND NOT (slot_bit k),
                         ackedMessages := (ackedMessages m)(k \<mapsto> Acked K now v)\<rparr>"
  using assms
  by (auto simp: DelMsgAndGetLossMsgs_def Let_def go_bind_def split: go.splits if_splits)

lemma wait_bits_after_del:
  assumes wf: "pm_wf m" and pend: "Pending m k = Some v"
  shows "bit (waitBits m AND NOT (slot_bit k)) j
           \<longleftrightarrow> (\<exists>s. s \<noteq> k \<and> Pending m s \<noteq> None \<and> unat (s mod 8) = j)"
proof -
  have uniq: "Pending m s \<noteq> None \<Longrightarrow> Pending m t \<noteq> None \<Longrightarrow> s mod 8 = t mod 8 \<Longrightarrow> s = t" for s t
    using wf by (auto simp: pm_wf_def)
  have bits: "bit (waitBits m) j \<longleftrightarrow> (\<exists>s. Pending m s \<noteq> None \<and> unat (s mod 8) = j)" for j
    using wf by (simp add: pm_wf_def)
  have other: "s \<noteq> k \<Longrightarrow> Pending m s \<noteq> None \<Longrightarrow> unat (s mod 8) \<noteq> unat (k mod 8)" for s
    using uniq [of s k] pend by (auto simp: slot_eq_iff)
  have "bit (waitBits m AND NOT (slot_bit k)) j
      \<longleftrightarrow> (\<exists>s. Pending m s \<noteq> None \<and> unat (s mod 8) = j) \<and> j \<noteq> unat (k mod 8)"
    by (simp add: bit_clear_slot bits)
  also have "\<dots> \<longleftrightarrow> (\<exists>s. s \<noteq> k \<and> Pending m s \<noteq> None \<and> unat (s mod 8) = j)"
  proof
    assume "(\<exists>s. Pending m s \<noteq> None \<and> unat (s mod 8) = j) \<and> j \<noteq> unat (k mod 8)"
    then obtain s where "Pending m s \<noteq> None" "unat (s mod 8) = j" "j \<noteq> unat (k mod 8)"
      by blast
    moreover from this have "s \<noteq> k" by auto
    ultimately show "\<exists>s. s \<noteq> k \<and> Pending m s \<noteq> None \<and> unat (s mod 8) = j"
      by blast
  next
    assume "\<exists>s. s \<noteq> k \<and> Pending m s \<noteq> None \<and> unat (s mod 8) = j"
    then obtain s where s: "s \<noteq> k" "Pending m s \<noteq> None" "unat (s mod 8) = j"
      by blast
    from other [OF s(1,2)] s
    show "(\<exists>s. Pending m s \<noteq> None \<and> unat (s mod 8) = j) \<and> j \<noteq> unat (k mod 8)"
      by blast
  qed
  finally show ?thesis .
qed

lemma pm_wf_Del:
  assumes wf: "pm_wf m" and del: "DelMsgAndGetLossMsgs K now k m = Return (ok, loss, m')"
  shows "pm_wf m'"
proof (cases "Pending m k")
  case None
  then show ?thesis using wf del by (simp add: DelMsgAndGetLossMsgs_absent)
next
  case (Some v)
  note d = Del_Return [OF del Some]
  have uniq: "Pending m s \<noteq> None \<Longrightarrow> Pending m t \<noteq> None \<Longrightarrow> s mod 8 = t mod 8 \<Longrightarrow> s = t" for s t
    using wf by (auto simp: pm_wf_def)
  show ?thesis
    unfolding pm_wf_def d(2)
  proof (intro conjI allI impI)
    fix s t
    assume "Pending (m\<lparr>Pending := (Pending m)(k := None),
                         waitBits := waitBits m AND NOT (slot_bit k),
                         ackedMessages := (ackedMessages m)(k \<mapsto> Acked K now v)\<rparr>) s \<noteq> None \<and>
            Pending (m\<lparr>Pending := (Pending m)(k := None),
                         waitBits := waitBits m AND NOT (slot_bit k),
                         ackedMessages := (ackedMessages m)(k \<mapsto> Acked K now v)\<rparr>) t \<noteq> None \<and>
            s mod 8 = t mod 8"
    then show "s = t"
      using uniq [of s t] by (auto split: if_splits)
  next
    fix j
    show "bit (waitBits (m\<lparr>Pending := (Pending m)(k := None),
                         waitBits := waitBits m AND NOT (slot_bit k),
                         ackedMessages := (ackedMessages m)(k \<mapsto> Acked K now v)\<rparr>)) j
       \<longleftrightarrow> (\<exists>s. Pending (m\<lparr>Pending := (Pending m)(k := None),
                         waitBits := waitBits m AND NOT (slot_bit k),
                         ackedMessages := (ackedMessages m)(k \<mapsto> Acked K now v)\<rparr>) s \<noteq> None
               \<and> unat (s mod 8) = j)"
      using wait_bits_after_del [OF wf Some, of j] by auto
  qed
qed

lemma pm_wf_step: "pm_wf m \<Longrightarrow> pm_step K c m = Some m' \<Longrightarrow> pm_wf m'"
proof (cases c)
  case (CallAddMsg now k v)
  assume "pm_wf m" "pm_step K c m = Some m'"
  then show ?thesis
    using CallAddMsg by (auto split: option.splits dest: pm_wf_AddMsg)
next
  case (CallDelMsgAndGetLossMsgs now k)
  assume "pm_wf m" "pm_step K c m = Some m'"
  then show ?thesis
    using CallDelMsgAndGetLossMsgs
    by (auto split: go.splits intro: pm_wf_Del [where m = m])
qed

lemma pm_wf_run: "pm_wf m \<Longrightarrow> pm_run K cs m = Some m' \<Longrightarrow> pm_wf m'"
proof (induction cs arbitrary: m)
  case Nil
  then show ?case by simp
next
  case (Cons c cs)
  then show ?case
    by (auto split: option.splits dest: pm_wf_step)
qed

lemma pm_wf_reachable: "pm_run K cs NewUDPPendingMap = Some m \<Longrightarrow> pm_wf m"
  using pm_wf_run [OF pm_wf_New] .

lemma pm_wf_card:
  assumes "pm_wf m"
  shows "finite (dom (Pending m))" and "card (dom (Pending m)) \<le> 8"
proof -
  let ?f = "\<lambda>s :: u32. unat (s mod 8)"
  have inj: "inj_on ?f (dom (Pending m))"
    using assms by (auto simp: inj_on_def pm_wf_def slot_eq_iff)
  have img: "?f ` dom (Pending m) \<subseteq> {..<8}"
    using slot_lt_8 by auto
  show "finite (dom (Pending m))" by simp
  have "card (dom (Pending m)) \<le> card {..<8::nat}"
    using inj img by (intro card_inj_on_le) simp_all
  then show "card (dom (Pending m)) \<le> 8" by simp
qed

lemma AddMsg_blocked_iff:
  assumes "pm_wf m"
  shows "UDPPendingMap_AddMsg K now k v m = None
           \<longleftrightarrow> (\<exists>s. Pending m s \<noteq> None \<and> s mod 8 = k mod 8)"
  using assms by (auto simp: UDPPendingMap_AddMsg_def and_slot_bit_pos pm_wf_def slot_eq_iff)

lemma pm_step_removes:
  assumes "pm_step K c m = Some m'" "Pending m s \<noteq> None" "Pending m' s = None"
  shows "\<exists>now. c = CallDelMsgAndGetLossMsgs now s"
proof (cases c)
  case (CallAddMsg now k v)
  then show ?thesis
    using assms by (auto simp: UDPPendingMap_AddMsg_def split: option.splits if_splits)
next
  case (CallDelMsgAndGetLossMsgs now k)
  show ?thesis
  proof (cases "Pending m k")
    case None
    then show ?thesis
      using assms CallDelMsgAndGetLossMsgs by (auto simp: DelMsgAndGetLossMsgs_absent)
  next
    case (Some v)
    obtain ok loss where r: "DelMsgAndGetLossMsgs K now k m = Return (ok, loss, m')"
      using assms(1) CallDelMsgAndGetLossMsgs by (auto split: go.splits)
    from Del_Return(2) [OF r Some] assms(2,3) have "s = k"
      by (auto split: if_splits)
    then show ?thesis using CallDelMsgAndGetLossMsgs by simp
  qed
qed

lemma sample_run: "pm_run sample_const sample_calls NewUDPPendingMap = Some sample_map"
  by (simp add: sample_calls_def sample_map_def UDPPendingMap_AddMsg_def NewUDPPendingMap_def
      slot_bit_def DelMsgAndGetLossMsgs_def)

lemma two_pending_run:
  "pm_run sample_const [CallAddMsg 10 1 (New 0 1 [7]), CallAddMsg 11 2 (New 0 2 [8])]
     NewUDPPendingMap = Some two_pending"
  by (simp add: two_pending_def UDPPendingMap_AddMsg_def NewUDPPendingMap_def slot_bit_def)

text \<open>
  Claim C4. After any schedule of \<open>AddMsg\<close> and \<open>DelMsgAndGetLossMsgs\<close> calls on a fresh
  UDP pending map, no two pending seqs share a slot \<open>seq mod 8\<close> and the pending set is
  finite with at most 8 entries; \<open>AddMsg(k)\<close> is blocked exactly while some pending seq
  occupies slot \<open>k mod 8\<close>, and a pending seq leaves the map only by a
  \<open>DelMsgAndGetLossMsgs\<close> call for that seq, so a blocked \<open>AddMsg\<close> goes through only
  after the occupying seq was acked.
\<close>

theorem window_invariant:
  assumes "pm_run K calls NewUDPPendingMap = Some m"
  shows "(\<forall>s t. Pending m s \<noteq> None \<and> Pending m t \<noteq> None \<and> s mod 8 = t mod 8 \<longrightarrow> s = t)
       \<and> finite (dom (Pending m)) \<and> card (dom (Pending m)) \<le> 8
       \<and> (\<forall>now k v. UDPPendingMap_AddMsg K now k v m = None
                       \<longleftrightarrow> (\<exists>s. Pending m s \<noteq> None \<and> s mod 8 = k mod 8))
       \<and> (\<forall>c m' s. pm_step K c m = Some m' \<and> Pending m s \<noteq> None \<and> Pending m' s = None
                       \<longrightarrow> (\<exists>now. c = CallDelMsgAndGetLossMsgs now s))"
proof -
  have wf: "pm_wf m" using assms by (rule pm_wf_reachable)
  have "\<forall>s t. Pending m s \<noteq> None \<and> Pending m t \<noteq> None \<and> s mod 8 = t mod 8 \<longrightarrow> s = t"
    using wf by (simp add: pm_wf_def)
  moreover have "\<forall>now k v. UDPPendingMap_AddMsg K now k v m = None
                       \<longleftrightarrow> (\<exists>s. Pending m s \<noteq> None \<and> s mod 8 = k mod 8)"
    using AddMsg_blocked_iff [OF wf] by blast
  moreover have "\<forall>c m' s. pm_step K c m = Some m' \<and> Pending m s \<noteq> None \<and> Pending m' s = None
                       \<longrightarrow> (\<exists>now. c = CallDelMsgAndGetLossMsgs now s)"
    using pm_step_removes by blast
  ultimately show ?thesis
    using pm_wf_card [OF wf] by blast
qed

theorem window_invariant_witness:
  "pm_run sample_const sample_calls NewUDPPendingMap = Some sample_map
   \<and> card (dom (Pending sample_map)) \<le> 8
   \<and> UDPPendingMap_AddMsg sample_const 30 9 (New 0 9 [5]) sample_map = None
   \<and> (\<exists>s. Pending sample_map s \<noteq> None \<and> s mod 8 = 9 mod 8)
   \<and> UDPPendingMap_AddMsg sample_const 30 10 (New 0 10 [5]) sample_map \<noteq> None"
proof -
  have "\<not> (\<exists>s. Pending sample_map s \<noteq> None \<and> s mod 8 = 10 mod 8)"
    by (auto simp: sample_map_def split: if_splits)
  moreover have "Pending sample_map 1 \<noteq> None \<and> (1 :: u32) mod 8 = 9 mod 8"
    by (simp add: sample_map_def)
  ultimately show ?thesis
    using window_invariant [OF sample_run] sample_run by blast
qed

subsection \<open>Loss detection\<close>

lemma scanned_preds:
  "rev [2..<Suc 7] = [7, 6, 5, 4, 3, 2]"
  by (simp add: upt_rec_numeral)

lemma map_filter_eqI:
  "(\<And>x. x \<in> set xs \<Longrightarrow> f x = g x) \<Longrightarrow> List.map_filter f xs = List.map_filter g xs"
  by (induction xs) (auto simp: List.map_filter_simps split: option.splits)

text \<open>
  Claim C2, as amended. Let \<open>k\<close> be pending in a UDP pending map reached by some schedule,
  and let no pending seq other than \<open>k - n\<close> itself lie in the slot of \<open>k - n\<close>, for
  \<open>n = 2, \<dots>, 7\<close>. Then \<open>DelMsgAndGetLossMsgs(k)\<close> returns \<open>ok = true\<close>, removes \<open>k\<close>
  from the pending set, clears its wait bit, records the acked message, and returns as
  lost exactly the messages still pending at the seqs \<open>k - 7, \<dots>, k - 2\<close>, oldest first.
  The immediate predecessor \<open>k - 1\<close> is not among the seqs scanned.
\<close>

theorem loss_detection:
  assumes reach: "pm_run K calls NewUDPPendingMap = Some m"
    and pend: "Pending m k = Some v"
    and own: "\<forall>n s. 2 \<le> n \<and> n \<le> 7 \<and> Pending m s \<noteq> None \<and> s mod 8 = (k - of_nat n) mod 8
                \<longrightarrow> s = k - of_nat n"
  shows "DelMsgAndGetLossMsgs K now k m
           = Return (True,
                     List.map_filter (\<lambda>n. Pending m (k - of_nat n)) [7, 6, 5, 4, 3, 2],
                     m\<lparr>Pending := (Pending m)(k := None),
                       waitBits := waitBits m AND NOT (slot_bit k),
                       ackedMessages := (ackedMessages m)(k \<mapsto> Acked K now v)\<rparr>)"
proof -
  let ?P = "(Pending m)(k := None)"
  let ?wb = "waitBits m AND NOT (slot_bit k)"
  let ?prev = "NOT (slot_bit k) AND NOT (slot_bit (k - 1))"
  have wf: "pm_wf m" using reach by (rule pm_wf_reachable)
  have same: "?P (k - of_nat n) = Pending m (k - of_nat n)" if "2 \<le> n" "n \<le> 7" for n
    using pred_neq [of n k] that by simp
  have bit_iff: "bit ?wb (unat ((k - of_nat n) mod 8)) \<longleftrightarrow> Pending m (k - of_nat n) \<noteq> None"
    if n: "2 \<le> n" "n \<le> 7" for n
  proof
    assume "bit ?wb (unat ((k - of_nat n) mod 8))"
    then obtain s where s: "Pending m s \<noteq> None" "unat (s mod 8) = unat ((k - of_nat n) mod 8)"
      using wait_bits_after_del [OF wf pend] by blast
    then have "s = k - of_nat n"
      using own n by (simp add: slot_eq_iff)
    with s show "Pending m (k - of_nat n) \<noteq> None" by simp
  next
    assume "Pending m (k - of_nat n) \<noteq> None"
    moreover have "k - of_nat n \<noteq> k" using pred_neq [of n k] n by simp
    ultimately show "bit ?wb (unat ((k - of_nat n) mod 8))"
      using wait_bits_after_del [OF wf pend] by blast
  qed
  have scan: "loss_scan ?P ?wb k 7 []
      = Return (List.map_filter (\<lambda>n. ?P (k - of_nat n)) (rev [2..<Suc 7]))"
    using loss_scan_ok [of 7 ?wb k ?P "[]"] bit_iff same
    by (simp add: and_slot_bit_pos del: upt_Suc)
  have mf: "List.map_filter (\<lambda>n. ?P (k - of_nat n)) (rev [2..<Suc 7])
      = List.map_filter (\<lambda>n. Pending m (k - of_nat n)) [7, 6, 5, 4, 3, 2]"
    unfolding scanned_preds
  proof (rule map_filter_eqI)
    fix n :: nat
    assume "n \<in> set [7, 6, 5, 4, 3, 2]"
    then have "2 \<le> n" "n \<le> 7" by auto
    then show "?P (k - of_nat n) = Pending m (k - of_nat n)" by (rule same)
  qed
  have quiet: "List.map_filter (\<lambda>n. Pending m (k - of_nat n)) [7, 6, 5, 4, 3, 2] = []"
    if "\<not> ?wb AND ?prev > 0"
  proof -
    have "Pending m (k - of_nat n) = None" if n: "2 \<le> n" "n \<le> 7" for n
    proof (rule ccontr)
      assume "Pending m (k - of_nat n) \<noteq> None"
      then have "bit ?wb (unat ((k - of_nat n) mod 8))"
        using bit_iff [OF n] by simp
      moreover have "unat ((k - of_nat n) mod 8) \<noteq> unat (k mod 8)"
        using slot_pred_neq [of n k] n by simp
      moreover have "unat ((k - of_nat n) mod 8) \<noteq> unat ((k - 1) mod 8)"
        using slot_pred_neq_pred1 [of n k] n by simp
      ultimately have "?wb AND ?prev > 0"
        unfolding and_prev_pos by blast
      with \<open>\<not> ?wb AND ?prev > 0\<close> show False by simp
    qed
    from this [of 7] this [of 6] this [of 5] this [of 4] this [of 3] this [of 2]
    show ?thesis by (simp add: List.map_filter_simps)
  qed
  show ?thesis
    using pend scan mf quiet
    by (simp add: DelMsgAndGetLossMsgs_def Let_def del: upt_Suc)
qed

theorem loss_detection_witness:
  "pm_run sample_const sample_calls NewUDPPendingMap = Some sample_map
   \<and> Pending sample_map 3 = Some (Transmitted sample_const 13 (New 0 3 [9]))
   \<and> DelMsgAndGetLossMsgs sample_const 20 3 sample_map
       = Return (True, [Transmitted sample_const 10 (New 0 1 [7])],
                 sample_map\<lparr>Pending := (Pending sample_map)(3 := None), waitBits := 2,
                   ackedMessages := (ackedMessages sample_map)
                     (3 \<mapsto> Acked sample_const 20 (Transmitted sample_const 13 (New 0 3 [9])))\<rparr>)"
proof -
  have p: "Pending sample_map 3 = Some (Transmitted sample_const 13 (New 0 3 [9]))"
    by (simp add: sample_map_def)
  have own: "\<forall>n s. 2 \<le> n \<and> n \<le> 7 \<and> Pending sample_map s \<noteq> None \<and> s mod 8 = (3 - of_nat n) mod 8
          \<longrightarrow> s = 3 - of_nat n"
  proof (intro allI impI)
    fix n :: nat and s :: u32
    assume h: "2 \<le> n \<and> n \<le> 7 \<and> Pending sample_map s \<noteq> None \<and> s mod 8 = (3 - of_nat n) mod 8"
    then consider "n = 2" | "n = 3" | "n = 4" | "n = 5" | "n = 6" | "n = 7"
      by force
    then show "s = 3 - of_nat n"
      using h by cases (auto simp: sample_map_def split: if_splits)
  qed
  have l: "List.map_filter (\<lambda>n. Pending sample_map (3 - of_nat n)) [7, 6, 5, 4, 3, 2]
      = [Transmitted sample_const 10 (New 0 1 [7])]"
    by (simp add: List.map_filter_simps sample_map_def)
  have w: "waitBits sample_map AND NOT (slot_bit 3) = 2"
    by (simp add: sample_map_def slot_bit_def)
  show ?thesis
    using loss_detection [OF sample_run p own, of 20] sample_run p
    unfolding l w by simp
qed

text \<open>
  Claim C2 as stated fails: with seqs 1 and 2 pending, acknowledging seq 2 returns no
  lost message although seq 1, the seq before it, is still pending.
\<close>

theorem loss_detection_counterexample:
  "pm_run sample_const [CallAddMsg 10 1 (New 0 1 [7]), CallAddMsg 11 2 (New 0 2 [8])]
     NewUDPPendingMap = Some two_pending
   \<and> Pending two_pending (2 - 1) = Some (Transmitted sample_const 10 (New 0 1 [7]))
   \<and> DelMsgAndGetLossMsgs sample_const 12 2 two_pending
       = Return (True, [],
                 two_pending\<lparr>Pending := (Pending two_pending)(2 := None), waitBits := 2,
                   ackedMessages :=
                     [2 \<mapsto> Acked sample_const 12 (Transmitted sample_const 11 (New 0 2 [8]))]\<rparr>)"
  using two_pending_run
  by (simp add: two_pending_def DelMsgAndGetLossMsgs_def slot_bit_def)

text \<open>
  Outside the condition of the amended claim the scan can meet a slot whose bit is set by
  a later seq: with seqs 1 and 2 pending, acknowledging seq 1 looks up seq \<open>1 - 7\<close> in
  the slot of seq 2 and panics.
\<close>

lemma ack_before_later_seq_panics:
  "DelMsgAndGetLossMsgs sample_const 12 1 two_pending = Panic (PanicString ''udp pending map !ok'')"
  by (simp add: two_pending_def DelMsgAndGetLossMsgs_def slot_bit_def loss_scan.simps [of _ _ _ 7])

subsection \<open>The BBR constants\<close>

lemma BBR_UNIT_256: "BBR_UNIT = 256"
  by (simp add: BBR_UNIT_def BBR_SCALE_def)

text \<open>
  Claim C9. With \<open>BBR_UNIT = 256\<close> the constants of conn/const.go are
  \<open>highGain = floor (2.885 * 256) + 1 = 739\<close>, \<open>drainGain = floor (256 / 2.885) = 88\<close>,
  \<open>cwndGain = 512\<close>, \<open>fullBwThresh = 320\<close>, \<open>fullBwCnt = 3\<close>, the pacing gain cycle is
  \<open>[320, 192, 256, 256, 256, 256, 256, 256]\<close> of length 8, and
  \<open>bandwidthWindowSize = gainCycleLength + 2 = 10\<close>.
\<close>

theorem bbr_constants:
  "BBR_UNIT = 256
   \<and> highGain = \<lfloor>2.885 * real_of_int BBR_UNIT\<rfloor> + 1 \<and> highGain = 739
   \<and> drainGain = \<lfloor>real_of_int BBR_UNIT / 2.885\<rfloor> \<and> drainGain = 88
   \<and> cwndGain = 512
   \<and> fullBwThresh = 320
   \<and> fullBwCnt = 3
   \<and> pacingGain = [320, 192, 256, 256, 256, 256, 256, 256]
   \<and> length pacingGain = 8
   \<and> gainCycleLength = 8
   \<and> bandwidthWindowSize = gainCycleLength + 2
   \<and> bandwidthWindowSize = 10"
proof -
  have fl1: "\<lfloor>2.885 * (256::real)\<rfloor> = 738"
    by (rule floor_unique) simp_all
  have fl2: "\<lfloor>(256::real) / 2.885\<rfloor> = 88"
    by (rule floor_unique) simp_all
  show ?thesis
    by (simp add: BBR_UNIT_256 highGain_def drainGain_def cwndGain_def fullBwThresh_def
        fullBwCnt_def pacingGain_def gainCycleLength_def bandwidthWindowSize_def fl1 fl2)
qed

end
